theory Spec2Isabelle
  imports Complex_Main
begin

section \<open>The resolution engine of onchip\_prolog.c\<close>

text \<open>
  The engine of \<^verbatim>\<open>src/language/onchip_prolog.c\<close> works on a graph of heap-allocated
  \<^verbatim>\<open>Term\<close> nodes that it mutates in place (a variable's \<^verbatim>\<open>ref\<close> slot) and compares by
  pointer. The embedding therefore keeps an explicit store: the heap is the list of all
  \<^verbatim>\<open>Term\<close> nodes allocated so far and a \<^verbatim>\<open>Term *\<close> is an index into it. \<^verbatim>\<open>malloc\<close> returns
  the next unused index (terms are never freed by the program), and is assumed to
  succeed: the out-of-memory exit of \<^verbatim>\<open>xmalloc\<close> is not modelled.
\<close>

subsection \<open>Terms (struct Term), the store and the globals\<close>

type_synonym addr = nat

text \<open>A nullable \<^verbatim>\<open>Term *\<close> is an \<open>addr option\<close>; \<open>None\<close> is \<^verbatim>\<open>NULL\<close>.\<close>

type_synonym ptr = "addr option"

text \<open>
  The tagged union \<^verbatim>\<open>struct Term\<close>. \<open>Var ref name anonymous\<close> is \<^verbatim>\<open>TM_VAR\<close> (the field
  \<^verbatim>\<open>id\<close> is always 0 and never read); \<open>Num v\<close> is \<^verbatim>\<open>TM_NUM\<close>, the double known by its value
  (the lexer produces finite doubles only, on which \<^verbatim>\<open>==\<close> is equality of values; the sign
  of a zero is not kept, so the doubles 0.0 and -0.0, equal for \<^verbatim>\<open>==\<close>, are the one \<open>Num 0\<close>);
  \<open>Struc name args\<close> is \<^verbatim>\<open>TM_STRUC\<close>, where \<^verbatim>\<open>arity\<close> is the length of \<open>args\<close>: the only
  constructor \<^verbatim>\<open>mk_struct\<close> pushes exactly \<^verbatim>\<open>arity\<close> slots.
\<close>

datatype TermKind = TM_VAR | TM_NUM | TM_STRUC

datatype cell =
    Var ptr "string option" bool
  | Num real
  | Struc string "ptr list"

text \<open>
  What the program cannot recover from. \<open>Fault\<close> stands for the undefined behaviour of the
  C program: dereferencing \<^verbatim>\<open>NULL\<close> or an address that was never allocated, reading an
  array out of bounds, or using a node through the wrong member of its union.
  \<open>OutOfFuel\<close> says that the recursion went deeper than the bound given to the model.
\<close>

datatype error = Fault | OutOfFuel

text \<open>One character written to stdout; \<open>G15 v\<close> is the text that \<^verbatim>\<open>printf("%.15g", d)\<close>
  writes for the double \<open>d\<close> of value \<open>v\<close>. For the value 0 that text is \<^verbatim>\<open>0\<close> or \<^verbatim>\<open>-0\<close> by
  the sign of the zero, which a \<open>Num\<close> does not keep: \<open>G15 0\<close> stands for either.\<close>

datatype ochar = Ch char | G15 real

text \<open>The mutable globals: the store, \<^verbatim>\<open>g_trail\<close> (its first \<^verbatim>\<open>n\<close> entries), stdout and
  \<^verbatim>\<open>g_solution_count\<close>.\<close>

record state =
  heap :: "cell list"
  trail :: "addr list"
  out :: "ochar list"
  solution_count :: int

definition cell_at :: "cell list \<Rightarrow> addr \<Rightarrow> cell option" where
  "cell_at h a = (if a < length h then Some (h ! a) else None)"

definition alloc :: "cell \<Rightarrow> state \<Rightarrow> addr \<times> state" where
  "alloc c s = (length (heap s), s\<lparr>heap := heap s @ [c]\<rparr>)"

definition mk_var :: "string \<Rightarrow> state \<Rightarrow> addr \<times> state" where
  "mk_var name s =
     alloc (Var None (Some name) (case name of [] \<Rightarrow> False | c # _ \<Rightarrow> c = CHR ''_'')) s"

definition mk_num :: "real \<Rightarrow> state \<Rightarrow> addr \<times> state" where
  "mk_num v s = alloc (Num v) s"

definition mk_atom :: "string \<Rightarrow> state \<Rightarrow> addr \<times> state" where
  "mk_atom name s = alloc (Struc name []) s"

definition mk_struct :: "string \<Rightarrow> nat \<Rightarrow> state \<Rightarrow> addr \<times> state" where
  "mk_struct name arity s = alloc (Struc name (replicate arity None)) s"

subsection \<open>The trail\<close>

definition trail_push :: "addr \<Rightarrow> state \<Rightarrow> state" where
  "trail_push var s = s\<lparr>trail := trail s @ [var]\<rparr>"

definition trail_mark :: "state \<Rightarrow> int" where
  "trail_mark s = int (length (trail s))"

text \<open>
  \<^verbatim>\<open>while (g_trail.n > mark) { Term *v = g_trail.v[--g_trail.n]; v->u.v.ref = NULL; }\<close>
  With a negative mark the loop would read \<^verbatim>\<open>g_trail.v[-1]\<close> once the trail is empty.
\<close>

function trail_unwind :: "int \<Rightarrow> state \<Rightarrow> error + state" where
  "trail_unwind mark s =
     (if int (length (trail s)) > mark then
        (if trail s = [] then Inl Fault
         else (case cell_at (heap s) (last (trail s)) of
                 Some (Var r nm an) \<Rightarrow>
                   trail_unwind mark
                     (s\<lparr>heap := (heap s)[last (trail s) := Var None nm an],
                        trail := butlast (trail s)\<rparr>)
               | _ \<Rightarrow> Inl Fault))
      else Inr s)"
  by pat_completeness auto
termination
  by (relation "measure (\<lambda>(mark, s). length (trail s))") auto

declare trail_unwind.simps [simp del]

subsection \<open>Dereferencing and unification\<close>

text \<open>\<^verbatim>\<open>while (t->k == TM_VAR && t->u.v.ref) t = t->u.v.ref;\<close>\<close>

fun deref :: "nat \<Rightarrow> cell list \<Rightarrow> addr \<Rightarrow> error + addr" where
  "deref 0 h t = Inl OutOfFuel"
| "deref (Suc n) h t =
     (case cell_at h t of
        None \<Rightarrow> Inl Fault
      | Some (Var (Some r) nm an) \<Rightarrow> deref n h r
      | Some _ \<Rightarrow> Inr t)"

text \<open>\<^verbatim>\<open>a->u.v.ref = b; trail_push(a);\<close> for a node \<open>a\<close> already read as the variable
  \<open>Var r nm an\<close>: the other members of the node stay as they are.\<close>

definition bind_var :: "addr \<Rightarrow> addr \<Rightarrow> string option \<Rightarrow> bool \<Rightarrow> state \<Rightarrow> state" where
  "bind_var a b nm an s = trail_push a (s\<lparr>heap := (heap s)[a := Var (Some b) nm an]\<rparr>)"

text \<open>The argument loop of \<^verbatim>\<open>unify\<close>, stopping at the first pair that does not unify.
  Nodes of kind \<^verbatim>\<open>TM_STRUC\<close> are never written after their construction, so the two argument
  vectors are read once.\<close>

fun unify_args ::
  "(addr \<Rightarrow> addr \<Rightarrow> state \<Rightarrow> error + bool \<times> state) \<Rightarrow> ptr list \<Rightarrow> ptr list \<Rightarrow> state
     \<Rightarrow> error + bool \<times> state" where
  "unify_args u [] bs s = Inr (True, s)"
| "unify_args u (a # as) [] s = Inl Fault"
| "unify_args u (a # as) (b # bs) s =
     (case a of None \<Rightarrow> Inl Fault | Some x \<Rightarrow>
      (case b of None \<Rightarrow> Inl Fault | Some y \<Rightarrow>
       (case u x y s of
          Inl e \<Rightarrow> Inl e
        | Inr (ok, s') \<Rightarrow> if ok then unify_args u as bs s' else Inr (False, s'))))"

fun unify :: "nat \<Rightarrow> addr \<Rightarrow> addr \<Rightarrow> state \<Rightarrow> error + bool \<times> state" where
  "unify 0 a b s = Inl OutOfFuel"
| "unify (Suc n) a0 b0 s =
     (case deref n (heap s) a0 of Inl e \<Rightarrow> Inl e | Inr a \<Rightarrow>
      (case deref n (heap s) b0 of Inl e \<Rightarrow> Inl e | Inr b \<Rightarrow>
       if a = b then Inr (True, s)
       else
       (case cell_at (heap s) a of None \<Rightarrow> Inl Fault | Some ca \<Rightarrow>
        (case cell_at (heap s) b of None \<Rightarrow> Inl Fault | Some cb \<Rightarrow>
         (case ca of
            Var ra na aa \<Rightarrow> Inr (True, bind_var a b na aa s)
          | Num x \<Rightarrow>
              (case cb of
                 Var rb nb ab \<Rightarrow> Inr (True, bind_var b a nb ab s)
               | Num y \<Rightarrow> Inr (x = y, s)
               | Struc g bs \<Rightarrow> Inr (False, s))
          | Struc f as \<Rightarrow>
              (case cb of
                 Var rb nb ab \<Rightarrow> Inr (True, bind_var b a nb ab s)
               | Num y \<Rightarrow> Inr (False, s)
               | Struc g bs \<Rightarrow>
                   if f \<noteq> g then Inr (False, s)
                   else if length as \<noteq> length bs then Inr (False, s)
                   else unify_args (unify n) as bs s))))))"

subsection \<open>Renaming a clause: copy\_term\<close>

text \<open>The \<^verbatim>\<open>VMap\<close>: the pairs (\<^verbatim>\<open>from[i]\<close>, \<^verbatim>\<open>to[i]\<close>) in insertion order; \<^verbatim>\<open>map_get\<close> returns the
  first entry whose \<^verbatim>\<open>from\<close> is the node asked for, or allocates a variable and appends.\<close>

type_synonym vmap = "(addr \<times> addr) list"

definition map_get :: "addr \<Rightarrow> vmap \<Rightarrow> state \<Rightarrow> error + addr \<times> vmap \<times> state" where
  "map_get orig M s =
     (case map_of M orig of
        Some t \<Rightarrow> Inr (t, M, s)
      | None \<Rightarrow>
          (case cell_at (heap s) orig of
             None \<Rightarrow> Inl Fault
           | Some c \<Rightarrow>
               (case mk_var (case c of Var r (Some nm) an \<Rightarrow> nm | _ \<Rightarrow> ''_'') s of
                  (nv, s') \<Rightarrow> Inr (nv, M @ [(orig, nv)], s'))))"

text \<open>\<^verbatim>\<open>c->u.s.args.a[i] = r\<close> for the node \<open>c\<close> that \<^verbatim>\<open>mk_struct\<close> has just returned.\<close>

definition set_arg :: "addr \<Rightarrow> nat \<Rightarrow> addr \<Rightarrow> state \<Rightarrow> error + state" where
  "set_arg c i r s =
     (case cell_at (heap s) c of
        Some (Struc nm as) \<Rightarrow>
          if i < length as then Inr (s\<lparr>heap := (heap s)[c := Struc nm (as[i := Some r])]\<rparr>)
          else Inl Fault
      | _ \<Rightarrow> Inl Fault)"

fun copy_args ::
  "(addr \<Rightarrow> vmap \<Rightarrow> state \<Rightarrow> error + addr \<times> vmap \<times> state) \<Rightarrow> addr \<Rightarrow> nat \<Rightarrow> ptr list
     \<Rightarrow> vmap \<Rightarrow> state \<Rightarrow> error + addr \<times> vmap \<times> state" where
  "copy_args cp c i [] M s = Inr (c, M, s)"
| "copy_args cp c i (x # xs) M s =
     (case x of None \<Rightarrow> Inl Fault | Some t \<Rightarrow>
      (case cp t M s of
         Inl e \<Rightarrow> Inl e
       | Inr (r, M1, s1) \<Rightarrow>
           (case set_arg c i r s1 of
              Inl e \<Rightarrow> Inl e
            | Inr s2 \<Rightarrow> copy_args cp c (Suc i) xs M1 s2)))"

fun copy_term :: "nat \<Rightarrow> addr \<Rightarrow> vmap \<Rightarrow> state \<Rightarrow> error + addr \<times> vmap \<times> state" where
  "copy_term 0 t M s = Inl OutOfFuel"
| "copy_term (Suc n) t M s =
     (case cell_at (heap s) t of
        None \<Rightarrow> Inl Fault
      | Some (Var r nm an) \<Rightarrow> map_get t M s
      | Some (Num v) \<Rightarrow> (case mk_num v s of (c, s') \<Rightarrow> Inr (c, M, s'))
      | Some (Struc name as) \<Rightarrow>
          (case mk_struct name (length as) s of
             (c, s') \<Rightarrow> copy_args (copy_term n) c 0 as M s'))"

text \<open>\<^verbatim>\<open>for (j = 0; j < bn; j++) B[j] = copy_term(cl->body[j], &M);\<close>\<close>

fun copy_goals ::
  "(addr \<Rightarrow> vmap \<Rightarrow> state \<Rightarrow> error + addr \<times> vmap \<times> state) \<Rightarrow> addr list \<Rightarrow> vmap \<Rightarrow> state
     \<Rightarrow> error + addr list \<times> vmap \<times> state" where
  "copy_goals cp [] M s = Inr ([], M, s)"
| "copy_goals cp (t # ts) M s =
     (case cp t M s of
        Inl e \<Rightarrow> Inl e
      | Inr (r, M1, s1) \<Rightarrow>
          (case copy_goals cp ts M1 s1 of
             Inl e \<Rightarrow> Inl e
           | Inr (rs, M2, s2) \<Rightarrow> Inr (r # rs, M2, s2)))"

subsection \<open>Printing\<close>

definition put_str :: "string \<Rightarrow> state \<Rightarrow> state" where
  "put_str str s = s\<lparr>out := out s @ map Ch str\<rparr>"

definition put_num :: "real \<Rightarrow> state \<Rightarrow> state" where
  "put_num v s = s\<lparr>out := out s @ [G15 v]\<rparr>"

definition is_list_like :: "nat \<Rightarrow> cell list \<Rightarrow> addr \<Rightarrow> error + bool" where
  "is_list_like n h t0 =
     (case deref n h t0 of Inl e \<Rightarrow> Inl e | Inr t \<Rightarrow>
      (case cell_at h t of
         None \<Rightarrow> Inl Fault
       | Some (Struc nm as) \<Rightarrow>
           Inr ((length as = 0 \<and> nm = ''[]'') \<or> (nm = ''.'' \<and> length as = 2))
       | Some _ \<Rightarrow> Inr False))"

text \<open>The \<^verbatim>\<open>while (1)\<close> loop of \<^verbatim>\<open>print_list\<close>; \<open>pt\<close> is \<^verbatim>\<open>print_term\<close>.\<close>

fun print_list_loop ::
  "(addr \<Rightarrow> state \<Rightarrow> error + state) \<Rightarrow> nat \<Rightarrow> bool \<Rightarrow> addr \<Rightarrow> state \<Rightarrow> error + state" where
  "print_list_loop pt 0 first t0 s = Inl OutOfFuel"
| "print_list_loop pt (Suc n) first t0 s =
     (case deref n (heap s) t0 of Inl e \<Rightarrow> Inl e | Inr t \<Rightarrow>
      (case cell_at (heap s) t of
         None \<Rightarrow> Inl Fault
       | Some c \<Rightarrow>
           if (case c of Struc nm as \<Rightarrow> length as = 0 \<and> nm = ''[]'' | _ \<Rightarrow> False) then Inr s
           else if (case c of Struc nm as \<Rightarrow> nm = ''.'' \<and> length as = 2 | _ \<Rightarrow> False) then
             (case c of
                Struc nm [Some x, Some y] \<Rightarrow>
                  (case pt x (if first then s else put_str '', '' s) of
                     Inl e \<Rightarrow> Inl e
                   | Inr s1 \<Rightarrow> print_list_loop pt n False y s1)
              | _ \<Rightarrow> Inl Fault)
           else pt t (put_str ''| '' (if first then s else put_str '', '' s))))"

definition print_list ::
  "(addr \<Rightarrow> state \<Rightarrow> error + state) \<Rightarrow> nat \<Rightarrow> addr \<Rightarrow> state \<Rightarrow> error + state" where
  "print_list pt n t s =
     (case print_list_loop pt n True t (put_str ''['' s) of
        Inl e \<Rightarrow> Inl e
      | Inr s1 \<Rightarrow> Inr (put_str '']'' s1))"

text \<open>\<^verbatim>\<open>for (i = 0; i < arity; i++) { if (i) printf(", "); print_term(args[i]); }\<close>\<close>

fun print_args ::
  "(addr \<Rightarrow> state \<Rightarrow> error + state) \<Rightarrow> bool \<Rightarrow> ptr list \<Rightarrow> state \<Rightarrow> error + state" where
  "print_args pt first [] s = Inr s"
| "print_args pt first (x # xs) s =
     (case x of None \<Rightarrow> Inl Fault | Some t \<Rightarrow>
      (case pt t (if first then s else put_str '', '' s) of
         Inl e \<Rightarrow> Inl e
       | Inr s1 \<Rightarrow> print_args pt False xs s1))"

fun print_term :: "nat \<Rightarrow> addr \<Rightarrow> state \<Rightarrow> error + state" where
  "print_term 0 t0 s = Inl OutOfFuel"
| "print_term (Suc n) t0 s =
     (case deref n (heap s) t0 of Inl e \<Rightarrow> Inl e | Inr t \<Rightarrow>
      (case cell_at (heap s) t of
         None \<Rightarrow> Inl Fault
       | Some (Var r nm an) \<Rightarrow> Inr (put_str (case nm of Some x \<Rightarrow> x | None \<Rightarrow> ''_'') s)
       | Some (Num v) \<Rightarrow> Inr (put_num v s)
       | Some (Struc nm as) \<Rightarrow>
           (case is_list_like n (heap s) t of
              Inl e \<Rightarrow> Inl e
            | Inr True \<Rightarrow> print_list (print_term n) n t s
            | Inr False \<Rightarrow>
                if length as > 0 then
                  (case print_args (print_term n) True as (put_str ''('' (put_str nm s)) of
                     Inl e \<Rightarrow> Inl e
                   | Inr s1 \<Rightarrow> Inr (put_str '')'' s1))
                else Inr (put_str nm s))))"

text \<open>\<^verbatim>\<open>print_solution\<close>: the loop over the query's variables, then the whole function.\<close>

fun print_bindings :: "nat \<Rightarrow> bool \<Rightarrow> addr list \<Rightarrow> state \<Rightarrow> error + state" where
  "print_bindings n first [] s = Inr s"
| "print_bindings n first (v # vs) s =
     (case cell_at (heap s) v of
        Some (Var r nm an) \<Rightarrow>
          (case print_term n v
                  (put_str ((case nm of Some x \<Rightarrow> x | None \<Rightarrow> ''_'') @ '' = '')
                     (if first then s else put_str '', '' s)) of
             Inl e \<Rightarrow> Inl e
           | Inr s1 \<Rightarrow> print_bindings n False vs s1)
      | _ \<Rightarrow> Inl Fault)"

definition print_solution :: "nat \<Rightarrow> addr list \<Rightarrow> state \<Rightarrow> error + state" where
  "print_solution n S s =
     (if length S = 0 then Inr (put_str ''true\<newline>'' s)
      else (case print_bindings n True S s of
              Inl e \<Rightarrow> Inl e
            | Inr s1 \<Rightarrow> Inr (put_str ''\<newline>'' s1)))"

subsection \<open>Built-in predicates\<close>

definition is_atom :: "nat \<Rightarrow> cell list \<Rightarrow> addr \<Rightarrow> string \<Rightarrow> int \<Rightarrow> error + bool" where
  "is_atom n h t0 name arity =
     (case deref n h t0 of Inl e \<Rightarrow> Inl e | Inr t \<Rightarrow>
      (case cell_at h t of
         None \<Rightarrow> Inl Fault
       | Some (Struc nm as) \<Rightarrow> Inr (int (length as) = arity \<and> nm = name)
       | Some _ \<Rightarrow> Inr False))"

text \<open>\<^verbatim>\<open>goal->u.s.args.a[i]\<close>, passed on to a function that dereferences it at once.\<close>

definition goal_arg :: "cell list \<Rightarrow> addr \<Rightarrow> nat \<Rightarrow> error + addr" where
  "goal_arg h goal i =
     (case cell_at h goal of
        Some (Struc nm as) \<Rightarrow>
          if i < length as then (case as ! i of None \<Rightarrow> Inl Fault | Some a \<Rightarrow> Inr a)
          else Inl Fault
      | _ \<Rightarrow> Inl Fault)"

text \<open>The branches of \<^verbatim>\<open>builtin_call\<close> for \<^verbatim>\<open>write/1\<close>, \<^verbatim>\<open>=/2\<close> and \<^verbatim>\<open>dif/2\<close>.\<close>

definition builtin_write :: "nat \<Rightarrow> addr \<Rightarrow> state \<Rightarrow> error + int \<times> state" where
  "builtin_write n goal s =
     (case goal_arg (heap s) goal 0 of Inl e \<Rightarrow> Inl e | Inr a \<Rightarrow>
      (case print_term n a s of Inl e \<Rightarrow> Inl e | Inr s1 \<Rightarrow> Inr (1, s1)))"

definition builtin_eq :: "nat \<Rightarrow> addr \<Rightarrow> state \<Rightarrow> error + int \<times> state" where
  "builtin_eq n goal s =
     (let m = trail_mark s in
      (case goal_arg (heap s) goal 0 of Inl e \<Rightarrow> Inl e | Inr a \<Rightarrow>
       (case goal_arg (heap s) goal 1 of Inl e \<Rightarrow> Inl e | Inr b \<Rightarrow>
        (case unify n a b s of
           Inl e \<Rightarrow> Inl e
         | Inr (ok, s1) \<Rightarrow>
             if ok then Inr (1, s1)
             else (case trail_unwind m s1 of Inl e \<Rightarrow> Inl e | Inr s2 \<Rightarrow> Inr (0, s2))))))"

definition builtin_dif :: "nat \<Rightarrow> addr \<Rightarrow> state \<Rightarrow> error + int \<times> state" where
  "builtin_dif n goal s =
     (let m = trail_mark s in
      (case goal_arg (heap s) goal 0 of Inl e \<Rightarrow> Inl e | Inr a \<Rightarrow>
       (case goal_arg (heap s) goal 1 of Inl e \<Rightarrow> Inl e | Inr b \<Rightarrow>
        (case unify n a b s of
           Inl e \<Rightarrow> Inl e
         | Inr (ok, s1) \<Rightarrow>
             (case trail_unwind m s1 of
                Inl e \<Rightarrow> Inl e
              | Inr s2 \<Rightarrow> Inr (if ok then 0 else 1, s2))))))"

text \<open>\<^verbatim>\<open>builtin_call\<close>: 1 for success, 0 for failure, -1 when the goal is no built-in.\<close>

definition builtin_call :: "nat \<Rightarrow> addr \<Rightarrow> state \<Rightarrow> error + int \<times> state" where
  "builtin_call n goal0 s =
     (case deref n (heap s) goal0 of Inl e \<Rightarrow> Inl e | Inr goal \<Rightarrow>
      (case is_atom n (heap s) goal ''true'' 0 of Inl e \<Rightarrow> Inl e
       | Inr True \<Rightarrow> Inr (1, s) | Inr False \<Rightarrow>
      (case is_atom n (heap s) goal ''fail'' 0 of Inl e \<Rightarrow> Inl e
       | Inr True \<Rightarrow> Inr (0, s) | Inr False \<Rightarrow>
      (case is_atom n (heap s) goal ''nl'' 0 of Inl e \<Rightarrow> Inl e
       | Inr True \<Rightarrow> Inr (1, put_str ''\<newline>'' s) | Inr False \<Rightarrow>
      (case is_atom n (heap s) goal ''write'' 1 of Inl e \<Rightarrow> Inl e
       | Inr True \<Rightarrow> builtin_write n goal s | Inr False \<Rightarrow>
      (case is_atom n (heap s) goal ''='' 2 of Inl e \<Rightarrow> Inl e
       | Inr True \<Rightarrow> builtin_eq n goal s | Inr False \<Rightarrow>
      (case is_atom n (heap s) goal ''dif'' 2 of Inl e \<Rightarrow> Inl e
       | Inr True \<Rightarrow> builtin_dif n goal s | Inr False \<Rightarrow>
       Inr (- 1, s))))))))"

subsection \<open>The solver\<close>

record clause =
  head :: addr
  body :: "addr list"

primrec kind :: "cell \<Rightarrow> TermKind" where
  "kind (Var r nm an) = TM_VAR"
| "kind (Num v) = TM_NUM"
| "kind (Struc nm as) = TM_STRUC"

text \<open>The "quick functor filter" of the clause loop: \<open>True\<close> when the clause is attempted,
  \<open>False\<close> when the loop goes on to the next clause (\<^verbatim>\<open>continue\<close>).\<close>

definition clause_filter :: "cell list \<Rightarrow> addr \<Rightarrow> addr \<Rightarrow> error + bool" where
  "clause_filter h Gh H =
     (case cell_at h Gh of None \<Rightarrow> Inl Fault | Some cg \<Rightarrow>
      (case cell_at h H of None \<Rightarrow> Inl Fault | Some ch \<Rightarrow>
       (case (cg, ch) of
          (Struc gn gas, Struc hn has) \<Rightarrow>
            if gn \<noteq> hn then Inr False
            else if length gas \<noteq> length has then Inr False
            else Inr True
        | _ \<Rightarrow> if kind cg \<noteq> kind ch then Inr False else Inr True)))"

text \<open>The loop \<^verbatim>\<open>for (i = 0; i < g_kb.n; i++)\<close> of \<^verbatim>\<open>solve\<close> over the clauses still to try;
  \<open>slv\<close> is the recursive call of \<^verbatim>\<open>solve\<close>.\<close>

fun try_clauses ::
  "(addr list \<Rightarrow> state \<Rightarrow> error + state) \<Rightarrow> nat \<Rightarrow> addr \<Rightarrow> addr list \<Rightarrow> clause list
     \<Rightarrow> state \<Rightarrow> error + state" where
  "try_clauses slv n G rest [] s = Inr s"
| "try_clauses slv n G rest (cl # cls) s =
     (case deref n (heap s) G of Inl e \<Rightarrow> Inl e | Inr Gh \<Rightarrow>
      (case clause_filter (heap s) Gh (head cl) of
         Inl e \<Rightarrow> Inl e
       | Inr False \<Rightarrow> try_clauses slv n G rest cls s
       | Inr True \<Rightarrow>
           (let mark = trail_mark s in
            (case copy_term n (head cl) [] s of Inl e \<Rightarrow> Inl e | Inr (Hcopy, M, s1) \<Rightarrow>
             (case unify n Gh Hcopy s1 of Inl e \<Rightarrow> Inl e | Inr (ok, s2) \<Rightarrow>
              (case (if ok then
                       (case copy_goals (copy_term n) (body cl) M s2 of
                          Inl e \<Rightarrow> Inl e
                        | Inr (B, M', s3) \<Rightarrow> slv (B @ rest) s3)
                     else Inr s2) of
                 Inl e \<Rightarrow> Inl e
               | Inr s4 \<Rightarrow>
                   (case trail_unwind mark s4 of
                      Inl e \<Rightarrow> Inl e
                    | Inr s5 \<Rightarrow> try_clauses slv n G rest cls s5)))))))"

text \<open>\<^verbatim>\<open>solve(goals, gn, query_vars)\<close> over the knowledge base \<^verbatim>\<open>g_kb\<close>, which the solver only
  reads.\<close>

fun solve :: "nat \<Rightarrow> clause list \<Rightarrow> addr list \<Rightarrow> addr list \<Rightarrow> state \<Rightarrow> error + state" where
  "solve 0 kb query_vars goals s = Inl OutOfFuel"
| "solve (Suc n) kb query_vars goals s =
     (case goals of
        [] \<Rightarrow> print_solution n query_vars (s\<lparr>solution_count := solution_count s + 1\<rparr>)
      | G # rest \<Rightarrow>
          (case builtin_call n G s of
             Inl e \<Rightarrow> Inl e
           | Inr (bi, s1) \<Rightarrow>
               if bi = 1 then solve n kb query_vars rest s1
               else if bi = 0 then Inr s1
               else try_clauses (solve n kb query_vars) n G rest kb s1))"

subsection \<open>The query variables (the driver)\<close>

text \<open>\<^verbatim>\<open>collect_vars\<close> with \<^verbatim>\<open>vset_add\<close>: the named variables of the query, in order of first
  occurrence.\<close>

definition vset_add :: "addr list \<Rightarrow> addr \<Rightarrow> addr list" where
  "vset_add S v = (if v \<in> set S then S else S @ [v])"

fun collect_args ::
  "(addr \<Rightarrow> addr list \<Rightarrow> error + addr list) \<Rightarrow> ptr list \<Rightarrow> addr list \<Rightarrow> error + addr list" where
  "collect_args cv [] S = Inr S"
| "collect_args cv (x # xs) S =
     (case x of None \<Rightarrow> Inl Fault | Some t \<Rightarrow>
      (case cv t S of Inl e \<Rightarrow> Inl e | Inr S1 \<Rightarrow> collect_args cv xs S1))"

fun collect_vars :: "nat \<Rightarrow> cell list \<Rightarrow> addr \<Rightarrow> addr list \<Rightarrow> error + addr list" where
  "collect_vars 0 h t0 S = Inl OutOfFuel"
| "collect_vars (Suc n) h t0 S =
     (case deref n h t0 of Inl e \<Rightarrow> Inl e | Inr t \<Rightarrow>
      (case cell_at h t of
         None \<Rightarrow> Inl Fault
       | Some (Var r nm an) \<Rightarrow> Inr (if an then S else vset_add S t)
       | Some (Num v) \<Rightarrow> Inr S
       | Some (Struc nm as) \<Rightarrow> collect_args (collect_vars n h) as S))"

subsection \<open>Relations and example stores used in the statements\<close>

text \<open>\<open>undoable s s'\<close>: the state \<open>s'\<close> has all trail entries of \<open>s\<close>, in place, and
  unwinding to the mark taken in \<open>s\<close> gives back \<open>s\<close> itself.\<close>

definition undoable :: "state \<Rightarrow> state \<Rightarrow> bool" where
  "undoable s s' \<longleftrightarrow>
     (\<exists>ext. trail s' = trail s @ ext) \<and> trail_unwind (trail_mark s) s' = Inr s"

text \<open>The store after parsing \<^verbatim>\<open>f(A,B)\<close> and \<^verbatim>\<open>f(1,2)\<close>: the parser allocates the arguments
  of a compound before the compound.\<close>

definition fab_state :: state where
  "fab_state =
     \<lparr>heap = [Var None (Some ''A'') False, Var None (Some ''B'') False,
              Struc ''f'' [Some 0, Some 1],
              Num 1, Num 2, Struc ''f'' [Some 3, Some 4]],
      trail = [], out = [], solution_count = 0\<rparr>"

text \<open>The store with \<^verbatim>\<open>Y\<close> (bound to \<^verbatim>\<open>1\<close> and on the trail), \<^verbatim>\<open>f(1)\<close>, \<^verbatim>\<open>g(1)\<close>, \<^verbatim>\<open>f(X)\<close>,
  \<^verbatim>\<open>f(1,2)\<close>, \<^verbatim>\<open>f(Z,1)\<close> and \<^verbatim>\<open>f(2,3)\<close>.\<close>

definition mismatch_state :: state where
  "mismatch_state =
     \<lparr>heap = [Num 1, Var (Some 0) (Some ''Y'') False,
              Num 1, Struc ''f'' [Some 2],
              Num 1, Struc ''g'' [Some 4],
              Var None (Some ''X'') False, Struc ''f'' [Some 6],
              Num 1, Num 2, Struc ''f'' [Some 8, Some 9],
              Var None (Some ''Z'') False, Num 1, Struc ''f'' [Some 11, Some 12],
              Num 2, Num 3, Struc ''f'' [Some 14, Some 15]],
      trail = [1], out = [], solution_count = 0\<rparr>"

text \<open>\<open>mismatch_state\<close> after \<^verbatim>\<open>trail_unwind(0)\<close>.\<close>

definition unwound_state :: state where
  "unwound_state =
     mismatch_state\<lparr>heap := (heap mismatch_state)[1 := Var None (Some ''Y'') False],
                     trail := []\<rparr>"

text \<open>The store after parsing \<^verbatim>\<open>X\<close> and \<^verbatim>\<open>f(X)\<close> in one clause: both occurrences of \<^verbatim>\<open>X\<close> are
  the same node.\<close>

definition cyclic_state :: state where
  "cyclic_state =
     \<lparr>heap = [Var None (Some ''X'') False, Struc ''f'' [Some 0]],
      trail = [], out = [], solution_count = 0\<rparr>"

text \<open>\<open>ground k h t\<close>: the term at \<open>t\<close> is fully ground. Following bound variables, it has
  no unbound variable and no \<^verbatim>\<open>NULL\<close> argument anywhere inside, and it is a finite tree of
  depth at most \<open>k\<close> (a cyclic term is ground for no \<open>k\<close>).\<close>

fun ground :: "nat \<Rightarrow> cell list \<Rightarrow> addr \<Rightarrow> bool" where
  "ground 0 h t = False"
| "ground (Suc k) h t =
     (case cell_at h t of
        None \<Rightarrow> False
      | Some (Var r nm an) \<Rightarrow> (case r of None \<Rightarrow> False | Some t' \<Rightarrow> ground k h t')
      | Some (Num v) \<Rightarrow> True
      | Some (Struc f as) \<Rightarrow>
          list_all (\<lambda>x. case x of None \<Rightarrow> False | Some a \<Rightarrow> ground k h a) as)"

text \<open>The store after parsing \<^verbatim>\<open>f(1,a) = f(1,b)\<close>, \<^verbatim>\<open>dif(f(1,a), f(1,b))\<close> on the same
  arguments, and \<^verbatim>\<open>dif(X, f(1,a))\<close> with \<^verbatim>\<open>X\<close> unbound.\<close>

definition eqdif_state :: state where
  "eqdif_state =
     \<lparr>heap = [Num 1, Struc ''a'' [], Struc ''f'' [Some 0, Some 1],
              Num 1, Struc ''b'' [], Struc ''f'' [Some 3, Some 4],
              Struc ''='' [Some 2, Some 5], Struc ''dif'' [Some 2, Some 5],
              Var None (Some ''X'') False, Struc ''dif'' [Some 8, Some 2]],
      trail = [], out = [], solution_count = 0\<rparr>"

text \<open>A store with the goals \<^verbatim>\<open>write(hello)\<close> (1), \<^verbatim>\<open>fail\<close> (2), the number \<^verbatim>\<open>7\<close> (3) and
  \<^verbatim>\<open>p\<close> (4), and with the terms of the three clauses \<^verbatim>\<open>fail :- true.\<close>, \<^verbatim>\<open>X.\<close> and \<^verbatim>\<open>p.\<close>
  of \<open>goals_kb\<close>.\<close>

definition goals_state :: state where
  "goals_state =
     \<lparr>heap = [Struc ''hello'' [], Struc ''write'' [Some 0], Struc ''fail'' [],
              Num 7, Struc ''p'' [],
              Struc ''fail'' [], Struc ''true'' [],
              Var None (Some ''X'') False, Struc ''p'' []],
      trail = [], out = [], solution_count = 0\<rparr>"

definition goals_kb :: "clause list" where
  "goals_kb = [\<lparr>head = 5, body = [6]\<rparr>, \<lparr>head = 7, body = []\<rparr>, \<lparr>head = 8, body = []\<rparr>]"

text \<open>The names and arities that \<^verbatim>\<open>builtin_call\<close> tests for.\<close>

definition builtin_table :: "(string \<times> nat) list" where
  "builtin_table =
     [(''true'', 0), (''fail'', 0), (''nl'', 0), (''write'', 1), (''='', 2), (''dif'', 2)]"

text \<open>\<open>heap_grows s s'\<close>: every node of \<open>s\<close> is still there in \<open>s'\<close>, unchanged.\<close>

definition heap_grows :: "state \<Rightarrow> state \<Rightarrow> bool" where
  "heap_grows s s' \<longleftrightarrow>
     length (heap s) \<le> length (heap s') \<and> (\<forall>a < length (heap s). heap s' ! a = heap s ! a)"

text \<open>\<open>goals_state\<close> after \<^verbatim>\<open>copy_term\<close> has renamed the head of the clause \<^verbatim>\<open>X.\<close>\<close>

definition renamed_state :: state where
  "renamed_state = goals_state\<lparr>heap := heap goals_state @ [Var None (Some ''X'') False]\<rparr>"

text \<open>\<open>goals_state\<close> after \<^verbatim>\<open>copy_term\<close> has copied the head of the clause
  \<^verbatim>\<open>fail :- true.\<close>\<close>

definition fail_copy_state :: state where
  "fail_copy_state = goals_state\<lparr>heap := heap goals_state @ [Struc ''fail'' []]\<rparr>"

text \<open>The knowledge base of the end-to-end scenario as the parser builds it, clause after
  clause and the arguments of a compound before the compound: the three \<^verbatim>\<open>parent\<close> facts
  (heads 2, 5, 8), \<^verbatim>\<open>ancestor(X,Y) :- parent(X,Y).\<close> (head 11, body 12) and
  \<^verbatim>\<open>ancestor(X,Y) :- parent(X,Z), ancestor(Z,Y).\<close> (head 15, body 17, 18). A variable name
  used twice in a clause is one node.\<close>

definition family_heap :: "cell list" where
  "family_heap =
    [Struc ''alice'' [], Struc ''bob'' [], Struc ''parent'' [Some 0, Some 1],
     Struc ''bob'' [], Struc ''carol'' [], Struc ''parent'' [Some 3, Some 4],
     Struc ''alice'' [], Struc ''dana'' [], Struc ''parent'' [Some 6, Some 7],
     Var None (Some ''X'') False, Var None (Some ''Y'') False,
     Struc ''ancestor'' [Some 9, Some 10], Struc ''parent'' [Some 9, Some 10],
     Var None (Some ''X'') False, Var None (Some ''Y'') False,
     Struc ''ancestor'' [Some 13, Some 14], Var None (Some ''Z'') False,
     Struc ''parent'' [Some 13, Some 16], Struc ''ancestor'' [Some 16, Some 14]]"

definition family_kb :: "clause list" where
  "family_kb =
    [\<lparr>head = 2, body = []\<rparr>, \<lparr>head = 5, body = []\<rparr>, \<lparr>head = 8, body = []\<rparr>,
     \<lparr>head = 11, body = [12]\<rparr>, \<lparr>head = 15, body = [17, 18]\<rparr>]"

text \<open>The store after parsing the query \<^verbatim>\<open>?- ancestor(A, carol).\<close>, and the one after
  parsing \<^verbatim>\<open>?- ancestor(A, nobody).\<close> instead; the goal is node 21 and \<^verbatim>\<open>A\<close> is node 19.\<close>

definition carol_state :: state where
  "carol_state =
     \<lparr>heap = family_heap @
        [Var None (Some ''A'') False, Struc ''carol'' [], Struc ''ancestor'' [Some 19, Some 20]],
      trail = [], out = [], solution_count = 0\<rparr>"

definition nobody_state :: state where
  "nobody_state =
     \<lparr>heap = family_heap @
        [Var None (Some ''A'') False, Struc ''nobody'' [], Struc ''ancestor'' [Some 19, Some 20]],
      trail = [], out = [], solution_count = 0\<rparr>"

text \<open>\<open>goals_state\<close> after \<^verbatim>\<open>copy_term\<close> has copied the head of the clause \<^verbatim>\<open>p.\<close>\<close>

definition p_copy_state :: state where
  "p_copy_state = goals_state\<lparr>heap := heap goals_state @ [Struc ''p'' []]\<rparr>"

text \<open>\<open>is_unbound c\<close>: the node is a variable whose \<^verbatim>\<open>ref\<close> is \<^verbatim>\<open>NULL\<close>.\<close>

definition is_unbound :: "cell \<Rightarrow> bool" where
  "is_unbound c = (case c of Var None nm an \<Rightarrow> True | _ \<Rightarrow> False)"

text \<open>The store after parsing \<^verbatim>\<open>A\<close>, \<^verbatim>\<open>f(A)\<close>, \<^verbatim>\<open>B\<close>, \<^verbatim>\<open>f(B)\<close> and the goals \<^verbatim>\<open>=(A,B)\<close> (4) and
  \<^verbatim>\<open>dif(A,B)\<close> (5), and the same store after \<^verbatim>\<open>unify(A, f(A))\<close> and \<^verbatim>\<open>unify(B, f(B))\<close>: no
  unbound variable is left in it, and \<^verbatim>\<open>A\<close> and \<^verbatim>\<open>B\<close> are cyclic.\<close>

definition cyclic_init :: state where
  "cyclic_init =
     \<lparr>heap = [Var None (Some ''A'') False, Struc ''f'' [Some 0],
              Var None (Some ''B'') False, Struc ''f'' [Some 2],
              Struc ''='' [Some 0, Some 2], Struc ''dif'' [Some 0, Some 2]],
      trail = [], out = [], solution_count = 0\<rparr>"

definition cyclic_pair_state :: state where
  "cyclic_pair_state =
     \<lparr>heap = [Var (Some 1) (Some ''A'') False, Struc ''f'' [Some 0],
              Var (Some 3) (Some ''B'') False, Struc ''f'' [Some 2],
              Struc ''='' [Some 0, Some 2], Struc ''dif'' [Some 0, Some 2]],
      trail = [0, 2], out = [], solution_count = 0\<rparr>"

section \<open>Properties\<close>

subsection \<open>Dereferencing, the trail and undoing a unification\<close>

lemma deref_unbound: "cell_at h t = Some (Var None nm an) \<Longrightarrow> deref (Suc n) h t = Inr t"
  by simp

lemma deref_num: "cell_at h t = Some (Num v) \<Longrightarrow> deref (Suc n) h t = Inr t"
  by simp

lemma deref_struc: "cell_at h t = Some (Struc f as) \<Longrightarrow> deref (Suc n) h t = Inr t"
  by simp

lemma trail_unwind_noop: "int (length (trail s)) \<le> m \<Longrightarrow> trail_unwind m s = Inr s"
  by (simp add: trail_unwind.simps)

lemma trail_unwind_compose:
  "trail_unwind k s2 = Inr s1 \<Longrightarrow> m \<le> k \<Longrightarrow> trail_unwind m s2 = trail_unwind m s1"
proof (induction k s2 rule: trail_unwind.induct)
  case (1 mark s)
  show ?case
  proof (cases "int (length (trail s)) > mark")
    case False
    with "1.prems" show ?thesis by (simp add: trail_unwind.simps)
  next
    case True
    from True "1.prems"(1) have ne: "trail s \<noteq> []"
      by (auto simp: trail_unwind.simps [of mark s])
    from True ne "1.prems"(1) obtain r nm an where
      c: "cell_at (heap s) (last (trail s)) = Some (Var r nm an)"
      by (auto simp: trail_unwind.simps [of mark s] split: option.splits cell.splits)
    let ?s' = "s\<lparr>heap := (heap s)[last (trail s) := Var None nm an], trail := butlast (trail s)\<rparr>"
    from True ne c "1.prems"(1) have k: "trail_unwind mark ?s' = Inr s1"
      by (simp add: trail_unwind.simps [of mark s])
    have "trail_unwind m ?s' = trail_unwind m s1"
      using "1.IH" [OF True ne c _ k "1.prems"(2)] by simp
    moreover from True "1.prems"(2) ne c have "trail_unwind m s = trail_unwind m ?s'"
      by (simp add: trail_unwind.simps [of m s])
    ultimately show ?thesis by simp
  qed
qed

lemma trail_unwind_bind_var:
  assumes "cell_at (heap s) a = Some (Var None nm an)"
  shows "trail_unwind (trail_mark s) (bind_var a b nm an s) = Inr s"
proof -
  from assms have lt: "a < length (heap s)" and c: "heap s ! a = Var None nm an"
    by (auto simp: cell_at_def split: if_splits)
  have "trail_unwind (trail_mark s) (bind_var a b nm an s)
        = trail_unwind (trail_mark s) (s\<lparr>heap := (heap s)[a := Var None nm an], trail := trail s\<rparr>)"
    using lt by (subst trail_unwind.simps)
      (simp add: bind_var_def trail_push_def trail_mark_def cell_at_def)
  also have "\<dots> = Inr (s\<lparr>heap := (heap s)[a := Var None nm an], trail := trail s\<rparr>)"
    by (rule trail_unwind_noop) (simp add: trail_mark_def)
  also have "(heap s)[a := Var None nm an] = heap s"
    using c by (metis list_update_id)
  finally show ?thesis by simp
qed

lemma bind_var_trail: "trail (bind_var a b nm an s) = trail s @ [a]"
  by (simp add: bind_var_def trail_push_def)

lemma undoable_refl: "undoable s s"
  by (simp add: undoable_def trail_unwind_noop trail_mark_def)

lemma undoable_trans:
  assumes "undoable s s1" and "undoable s1 s2"
  shows "undoable s s2"
proof -
  from assms obtain e1 e2 where e: "trail s1 = trail s @ e1" "trail s2 = trail s1 @ e2"
    by (auto simp: undoable_def)
  from assms have u1: "trail_unwind (trail_mark s) s1 = Inr s"
    and u2: "trail_unwind (trail_mark s1) s2 = Inr s1"
    by (auto simp: undoable_def)
  from e have "trail_mark s \<le> trail_mark s1" by (simp add: trail_mark_def)
  from trail_unwind_compose [OF u2 this] u1 have "trail_unwind (trail_mark s) s2 = Inr s"
    by simp
  with e show ?thesis by (simp add: undoable_def)
qed

lemma undoable_bind_var:
  "cell_at (heap s) a = Some (Var None nm an) \<Longrightarrow> undoable s (bind_var a b nm an s)"
  by (simp add: undoable_def trail_unwind_bind_var bind_var_trail)

lemma unify_args_undoable:
  assumes u: "\<And>x y s r s'. u x y s = Inr (r, s') \<Longrightarrow> undoable s s'"
  shows "unify_args u as bs s = Inr (r, s') \<Longrightarrow> undoable s s'"
proof (induction as arbitrary: bs s)
  case Nil
  then show ?case by (simp add: undoable_refl)
next
  case (Cons a as)
  from Cons.prems obtain b bs' where bs: "bs = b # bs'"
    by (cases bs) auto
  from Cons.prems bs obtain x y where a: "a = Some x" and b: "b = Some y"
    by (auto split: option.splits)
  from Cons.prems bs a b obtain ok s1 where r: "u x y s = Inr (ok, s1)"
    by (auto split: sum.splits)
  from u [OF r] have s1: "undoable s s1" .
  show ?case
  proof (cases ok)
    case True
    with Cons.prems bs a b r have "unify_args u as bs' s1 = Inr (r, s')" by simp
    then have "undoable s1 s'" by (rule Cons.IH)
    with s1 show ?thesis by (rule undoable_trans)
  next
    case False
    with Cons.prems bs a b r have "s' = s1" by simp
    with s1 show ?thesis by simp
  qed
qed

lemma deref_result:
  "deref n h t = Inr a \<Longrightarrow>
     (\<exists>c. cell_at h a = Some c \<and> (\<forall>r nm an. c = Var r nm an \<longrightarrow> r = None))"
proof (induction n arbitrary: t)
  case 0
  then show ?case by simp
next
  case (Suc n)
  then show ?case
    by (cases "cell_at h t") (auto split: cell.splits option.splits)
qed

lemma unify_undoable: "unify n a b s = Inr (r, s') \<Longrightarrow> undoable s s'"
proof (induction n arbitrary: a b s r s')
  case 0
  then show ?case by simp
next
  case (Suc n)
  from Suc.prems obtain a' b' where da: "deref n (heap s) a = Inr a'"
    and db: "deref n (heap s) b = Inr b'"
    by (auto split: sum.splits)
  from deref_result [OF da] obtain ca where ca: "cell_at (heap s) a' = Some ca"
    and va: "\<And>r nm an. ca = Var r nm an \<Longrightarrow> r = None" by blast
  from deref_result [OF db] obtain cb where cb: "cell_at (heap s) b' = Some cb"
    and vb: "\<And>r nm an. cb = Var r nm an \<Longrightarrow> r = None" by blast
  show ?case
  proof (cases "a' = b'")
    case True
    with Suc.prems da db show ?thesis by (simp add: undoable_refl)
  next
    case False
    note ne = False
    show ?thesis
    proof (cases ca)
      case (Var ra na aa)
      with va have "ra = None" by simp
      with Var ca have "undoable s (bind_var a' b' na aa s)"
        by (simp add: undoable_bind_var)
      with Suc.prems da db ne ca cb Var show ?thesis by simp
    next
      case (Num x)
      show ?thesis
      proof (cases cb)
        case (Var rb nb ab)
        with vb have "rb = None" by simp
        with Var cb have "undoable s (bind_var b' a' nb ab s)"
          by (simp add: undoable_bind_var)
        with Suc.prems da db ne ca cb Num Var show ?thesis by simp
      qed (use Suc.prems da db ne ca cb Num in \<open>auto simp: undoable_refl\<close>)
    next
      case (Struc f as)
      show ?thesis
      proof (cases cb)
        case (Var rb nb ab)
        with vb have "rb = None" by simp
        with Var cb have "undoable s (bind_var b' a' nb ab s)"
          by (simp add: undoable_bind_var)
        with Suc.prems da db ne ca cb Struc Var show ?thesis by simp
      next
        case (Num y)
        with Suc.prems da db ne ca cb Struc show ?thesis by (auto simp: undoable_refl)
      next
        case Struc2: (Struc g bs)
        show ?thesis
        proof (cases "f \<noteq> g \<or> length as \<noteq> length bs")
          case True
          with Suc.prems da db ne ca cb Struc Struc2 show ?thesis
            by (auto simp: undoable_refl split: if_splits)
        next
          case False
          with Suc.prems da db ne ca cb Struc Struc2
          have "unify_args (unify n) as bs s = Inr (r, s')" by simp
          then show ?thesis
            by (rule unify_args_undoable [rotated]) (rule Suc.IH)
        qed
      qed
    qed
  qed
qed

lemma trail_unwind_length: "trail_unwind m s = Inr s' \<Longrightarrow> int (length (trail s')) \<le> m"
proof (induction m s rule: trail_unwind.induct)
  case (1 mark s)
  show ?case
  proof (cases "int (length (trail s)) > mark")
    case False
    with "1.prems" show ?thesis by (simp add: trail_unwind.simps)
  next
    case True
    from True "1.prems" have ne: "trail s \<noteq> []"
      by (auto simp: trail_unwind.simps [of mark s])
    from True ne "1.prems" obtain r nm an where
      c: "cell_at (heap s) (last (trail s)) = Some (Var r nm an)"
      by (auto simp: trail_unwind.simps [of mark s] split: option.splits cell.splits)
    from True ne c "1.prems" show ?thesis
      using "1.IH" [OF True ne c] by (simp add: trail_unwind.simps [of mark s])
  qed
qed

subsection \<open>C2: unify and undo\<close>

text \<open>
  C2. Take \<^verbatim>\<open>t = f(A,B)\<close> with \<^verbatim>\<open>A\<close>, \<^verbatim>\<open>B\<close> two distinct unbound variables and \<^verbatim>\<open>u = f(1,2)\<close>, in
  any state. Then \<^verbatim>\<open>unify(t,u)\<close> returns true, binds \<^verbatim>\<open>A\<close> to the node of 1 and \<^verbatim>\<open>B\<close> to the
  node of 2 and pushes \<^verbatim>\<open>A\<close> then \<^verbatim>\<open>B\<close> on the trail; unwinding to the mark captured before
  the call gives back the state before the call, in which both variables are unbound and
  \<^verbatim>\<open>deref(A)\<close> is \<^verbatim>\<open>A\<close> itself.
\<close>

theorem unify_undo_round_trip:
  assumes A: "cell_at (heap s) A = Some (Var None nA aA)"
    and B: "cell_at (heap s) B = Some (Var None nB aB)"
    and AB: "A \<noteq> B"
    and one: "cell_at (heap s) p1 = Some (Num 1)"
    and two: "cell_at (heap s) p2 = Some (Num 2)"
    and t: "cell_at (heap s) t = Some (Struc ''f'' [Some A, Some B])"
    and u: "cell_at (heap s) u = Some (Struc ''f'' [Some p1, Some p2])"
  shows "\<exists>s'. unify (Suc (Suc (Suc n))) t u s = Inr (True, s')
           \<and> cell_at (heap s') A = Some (Var (Some p1) nA aA)
           \<and> cell_at (heap s') B = Some (Var (Some p2) nB aB)
           \<and> trail s' = trail s @ [A, B]
           \<and> trail_unwind (trail_mark s) s' = Inr s
           \<and> deref (Suc n) (heap s) A = Inr A"
proof -
  let ?s1 = "bind_var A p1 nA aA s"
  let ?s2 = "bind_var B p2 nB aB ?s1"
  from A one have Ap1: "A \<noteq> p1" by auto
  from A two have Ap2: "A \<noteq> p2" by auto
  from B two have Bp2: "B \<noteq> p2" by auto
  from t u Ap1 have tu: "t \<noteq> u" by auto
  have h1: "heap ?s1 = (heap s)[A := Var (Some p1) nA aA]"
    by (simp add: bind_var_def trail_push_def)
  have B1: "cell_at (heap ?s1) B = Some (Var None nB aB)"
    using B AB by (auto simp: h1 cell_at_def split: if_splits)
  have two1: "cell_at (heap ?s1) p2 = Some (Num 2)"
    using two Ap2 by (auto simp: h1 cell_at_def split: if_splits)
  have u1: "unify (Suc (Suc n)) A p1 s = Inr (True, ?s1)"
    using A one Ap1 by simp
  have u2: "unify (Suc (Suc n)) B p2 ?s1 = Inr (True, ?s2)"
    using B1 two1 Bp2 by simp
  have un: "unify (Suc (Suc (Suc n))) t u s = Inr (True, ?s2)"
    using t u tu u1 u2 by simp
  have A2: "cell_at (heap ?s2) A = Some (Var (Some p1) nA aA)"
    using A AB by (auto simp: bind_var_def trail_push_def cell_at_def split: if_splits)
  have B2: "cell_at (heap ?s2) B = Some (Var (Some p2) nB aB)"
    using B by (auto simp: bind_var_def trail_push_def cell_at_def split: if_splits)
  have tr: "trail ?s2 = trail s @ [A, B]"
    by (simp add: bind_var_trail)
  have "trail_unwind (trail_mark s) ?s2 = Inr s"
    using unify_undoable [OF un] by (simp add: undoable_def)
  moreover have "deref (Suc n) (heap s) A = Inr A"
    using A by simp
  ultimately show ?thesis using un A2 B2 tr by blast
qed

theorem unify_undo_round_trip_witness:
  "\<exists>s'. unify (Suc (Suc (Suc 0))) 2 5 fab_state = Inr (True, s')
      \<and> cell_at (heap s') 0 = Some (Var (Some 3) (Some ''A'') False)
      \<and> cell_at (heap s') 1 = Some (Var (Some 4) (Some ''B'') False)
      \<and> trail s' = trail fab_state @ [0, 1]
      \<and> trail_unwind (trail_mark fab_state) s' = Inr fab_state
      \<and> deref (Suc 0) (heap fab_state) 0 = Inr 0"
  by (rule unify_undo_round_trip) (simp_all add: fab_state_def cell_at_def)

subsection \<open>C4: unwinding to a mark beyond the trail\<close>

text \<open>
  C4, as the code has it. \<^verbatim>\<open>trail_unwind(mark)\<close> with a mark greater than (or equal to) the
  current trail length returns normally and changes nothing: the loop guard
  \<^verbatim>\<open>g_trail.n > mark\<close> is false at once and there is no assertion. After a call that returned,
  a second call with the same mark changes nothing, and a call with a smaller mark does
  what it would have done without the first call.
\<close>

theorem trail_unwind_beyond_is_noop:
  "(int (length (trail s)) \<le> m \<longrightarrow> trail_unwind m s = Inr s)
   \<and> (trail_unwind m s = Inr s' \<longrightarrow>
        trail_unwind m s' = Inr s' \<and> (\<forall>m'. m' \<le> m \<longrightarrow> trail_unwind m' s' = trail_unwind m' s))"
proof (intro conjI impI allI)
  assume "int (length (trail s)) \<le> m"
  then show "trail_unwind m s = Inr s" by (rule trail_unwind_noop)
next
  assume r: "trail_unwind m s = Inr s'"
  from trail_unwind_length [OF r] show "trail_unwind m s' = Inr s'"
    by (rule trail_unwind_noop)
next
  fix m'
  assume r: "trail_unwind m s = Inr s'" and le: "m' \<le> m"
  from trail_unwind_compose [OF r le] show "trail_unwind m' s' = trail_unwind m' s"
    by simp
qed

theorem trail_unwind_beyond_is_noop_witness:
  "trail_unwind 5 mismatch_state = Inr mismatch_state
   \<and> trail_unwind 0 mismatch_state = Inr unwound_state
   \<and> trail_unwind 0 unwound_state = Inr unwound_state
   \<and> trail_unwind (- 1) unwound_state = trail_unwind (- 1) mismatch_state"
proof -
  have a: "int (length (trail mismatch_state)) \<le> 5"
    by (simp add: mismatch_state_def)
  have b: "trail_unwind 0 mismatch_state = Inr unwound_state"
    by (simp add: trail_unwind.simps mismatch_state_def unwound_state_def cell_at_def)
  have le: "(- 1 :: int) \<le> 0" by simp
  note th = trail_unwind_beyond_is_noop [of mismatch_state]
  from th [of 5, THEN conjunct1] a
  have 1: "trail_unwind 5 mismatch_state = Inr mismatch_state" by (rule mp)
  from th [of 0 unwound_state, THEN conjunct2] b
  have 2: "trail_unwind 0 unwound_state = Inr unwound_state \<and>
      (\<forall>m'. m' \<le> 0 \<longrightarrow> trail_unwind m' unwound_state = trail_unwind m' mismatch_state)"
    by (rule mp)
  from 2 le have 3: "trail_unwind (- 1) unwound_state = trail_unwind (- 1) mismatch_state"
    by blast
  from 1 b 2 3 show ?thesis by blast
qed

text \<open>The claim as the specification states it fails: unwinding the one-entry trail of
  \<open>mismatch_state\<close> to the mark 5 returns normally.\<close>

theorem trail_unwind_beyond_counterexample:
  "trail_unwind 5 mismatch_state = Inr mismatch_state"
  by (simp add: trail_unwind.simps mismatch_state_def)

subsection \<open>C7: unify never pops the trail\<close>

text \<open>
  C7. Whenever \<^verbatim>\<open>unify(a,b)\<close> returns, with true or with false, the trail is at least as long as
  before and its entries of before the call are unchanged. \<^verbatim>\<open>unify(f(p), g(q))\<close> and the
  arity mismatch \<^verbatim>\<open>unify(f(x), f(p,q))\<close> return false and leave the whole state as it was;
  \<^verbatim>\<open>unify(f(Z,1), f(2,3))\<close> with \<^verbatim>\<open>Z\<close> unbound returns false and leaves \<^verbatim>\<open>Z\<close> bound and on the
  trail, for the caller to unwind.
\<close>

theorem unify_never_pops:
  "(unify n a b s = Inr (r, s') \<longrightarrow>
      length (trail s) \<le> length (trail s') \<and> take (length (trail s)) (trail s') = trail s)
   \<and> (cell_at (heap s) t = Some (Struc ''f'' [Some p]) \<and>
      cell_at (heap s) u = Some (Struc ''g'' [Some q]) \<longrightarrow>
        unify (Suc (Suc n)) t u s = Inr (False, s))
   \<and> (cell_at (heap s) t = Some (Struc ''f'' [Some x]) \<and>
      cell_at (heap s) u = Some (Struc ''f'' [Some p, Some q]) \<longrightarrow>
        unify (Suc (Suc n)) t u s = Inr (False, s))
   \<and> (cell_at (heap s) t = Some (Struc ''f'' [Some Z, Some p1]) \<and>
      cell_at (heap s) u = Some (Struc ''f'' [Some p2, Some p3]) \<and>
      cell_at (heap s) Z = Some (Var None nm an) \<and>
      cell_at (heap s) p1 = Some (Num 1) \<and> cell_at (heap s) p2 = Some (Num 2) \<and>
      cell_at (heap s) p3 = Some (Num 3) \<longrightarrow>
        unify (Suc (Suc (Suc n))) t u s = Inr (False, bind_var Z p2 nm an s))"
proof (intro conjI impI)
  assume "unify n a b s = Inr (r, s')"
  from unify_undoable [OF this] obtain ext where "trail s' = trail s @ ext"
    by (auto simp: undoable_def)
  then show "length (trail s) \<le> length (trail s')"
    and "take (length (trail s)) (trail s') = trail s"
    by simp_all
next
  assume "cell_at (heap s) t = Some (Struc ''f'' [Some p]) \<and>
      cell_at (heap s) u = Some (Struc ''g'' [Some q])"
  moreover from this have "t \<noteq> u" by auto
  ultimately show "unify (Suc (Suc n)) t u s = Inr (False, s)" by simp
next
  assume "cell_at (heap s) t = Some (Struc ''f'' [Some x]) \<and>
      cell_at (heap s) u = Some (Struc ''f'' [Some p, Some q])"
  moreover from this have "t \<noteq> u" by auto
  ultimately show "unify (Suc (Suc n)) t u s = Inr (False, s)" by simp
next
  assume h: "cell_at (heap s) t = Some (Struc ''f'' [Some Z, Some p1]) \<and>
      cell_at (heap s) u = Some (Struc ''f'' [Some p2, Some p3]) \<and>
      cell_at (heap s) Z = Some (Var None nm an) \<and>
      cell_at (heap s) p1 = Some (Num 1) \<and> cell_at (heap s) p2 = Some (Num 2) \<and>
      cell_at (heap s) p3 = Some (Num 3)"
  let ?s1 = "bind_var Z p2 nm an s"
  from h have ne: "Z \<noteq> p2" "Z \<noteq> p1" "Z \<noteq> p3" "p1 \<noteq> p3" by auto
  from h ne have tu: "t \<noteq> u" by auto
  have h1: "heap ?s1 = (heap s)[Z := Var (Some p2) nm an]"
    by (simp add: bind_var_def trail_push_def)
  from h ne have c1: "cell_at (heap ?s1) p1 = Some (Num 1)"
    and c3: "cell_at (heap ?s1) p3 = Some (Num 3)"
    by (auto simp: h1 cell_at_def split: if_splits)
  from h ne have u1: "unify (Suc (Suc n)) Z p2 s = Inr (True, ?s1)" by simp
  from c1 c3 ne have u2: "unify (Suc (Suc n)) p1 p3 ?s1 = Inr (False, ?s1)" by simp
  from h tu u1 u2 show "unify (Suc (Suc (Suc n))) t u s = Inr (False, ?s1)" by simp
qed

theorem unify_never_pops_witness:
  "unify (Suc (Suc 0)) 3 5 mismatch_state = Inr (False, mismatch_state)
   \<and> unify (Suc (Suc 0)) 7 10 mismatch_state = Inr (False, mismatch_state)
   \<and> unify (Suc (Suc (Suc 0))) 13 16 mismatch_state
       = Inr (False, bind_var 11 14 (Some ''Z'') False mismatch_state)
   \<and> length (trail mismatch_state)
       \<le> length (trail (bind_var 11 14 (Some ''Z'') False mismatch_state))
   \<and> take (length (trail mismatch_state))
          (trail (bind_var 11 14 (Some ''Z'') False mismatch_state))
       = trail mismatch_state"
proof -
  have c: "cell_at (heap mismatch_state) 3 = Some (Struc ''f'' [Some 2])"
    "cell_at (heap mismatch_state) 5 = Some (Struc ''g'' [Some 4])"
    "cell_at (heap mismatch_state) 7 = Some (Struc ''f'' [Some 6])"
    "cell_at (heap mismatch_state) 10 = Some (Struc ''f'' [Some 8, Some 9])"
    "cell_at (heap mismatch_state) 13 = Some (Struc ''f'' [Some 11, Some 12])"
    "cell_at (heap mismatch_state) 16 = Some (Struc ''f'' [Some 14, Some 15])"
    "cell_at (heap mismatch_state) 11 = Some (Var None (Some ''Z'') False)"
    "cell_at (heap mismatch_state) 12 = Some (Num 1)"
    "cell_at (heap mismatch_state) 14 = Some (Num 2)"
    "cell_at (heap mismatch_state) 15 = Some (Num 3)"
    by (simp_all add: mismatch_state_def cell_at_def)
  note th = unify_never_pops [where n = 0 and s = mismatch_state]
  have 1: "unify (Suc (Suc 0)) 3 5 mismatch_state = Inr (False, mismatch_state)"
    using th [THEN conjunct2, THEN conjunct1, of 3 2 5 4] c(1,2) by blast
  have 2: "unify (Suc (Suc 0)) 7 10 mismatch_state = Inr (False, mismatch_state)"
    using th [THEN conjunct2, THEN conjunct2, THEN conjunct1, of 7 6 10 8 9] c(3,4) by blast
  have 3: "unify (Suc (Suc (Suc 0))) 13 16 mismatch_state
       = Inr (False, bind_var 11 14 (Some ''Z'') False mismatch_state)"
    using th [THEN conjunct2, THEN conjunct2, THEN conjunct2,
        of 13 11 12 16 14 15 "Some ''Z''" False] c(5-10) by blast
  from 3 unify_never_pops [THEN conjunct1, of "Suc (Suc (Suc 0))" 13 16 mismatch_state False
       "bind_var 11 14 (Some ''Z'') False mismatch_state"]
  have 4: "length (trail mismatch_state)
       \<le> length (trail (bind_var 11 14 (Some ''Z'') False mismatch_state))
   \<and> take (length (trail mismatch_state))
          (trail (bind_var 11 14 (Some ''Z'') False mismatch_state))
       = trail mismatch_state" by blast
  from 1 2 3 4 show ?thesis by blast
qed

subsection \<open>C8: no occurs-check\<close>

text \<open>
  C8. For an unbound variable \<^verbatim>\<open>X\<close> and a compound \<^verbatim>\<open>f(X)\<close> whose argument is that same node,
  \<^verbatim>\<open>unify(X, f(X))\<close> returns true, stores the address of \<^verbatim>\<open>f(X)\<close> in the \<^verbatim>\<open>ref\<close> slot of \<^verbatim>\<open>X\<close> and
  pushes \<^verbatim>\<open>X\<close> on the trail: the term is cyclic afterwards.
\<close>

theorem unify_no_occurs_check:
  assumes "cell_at (heap s) X = Some (Var None nm an)"
    and "cell_at (heap s) t = Some (Struc ''f'' [Some X])"
  shows "unify (Suc (Suc n)) X t s
           = Inr (True, s\<lparr>heap := (heap s)[X := Var (Some t) nm an], trail := trail s @ [X]\<rparr>)"
proof -
  from assms have "X \<noteq> t" by auto
  with assms show ?thesis
    by (simp add: bind_var_def trail_push_def)
qed

theorem unify_no_occurs_check_witness:
  "unify (Suc (Suc 0)) 0 1 cyclic_state
     = Inr (True, cyclic_state\<lparr>heap := [Var (Some 1) (Some ''X'') False, Struc ''f'' [Some 0]],
                               trail := [0]\<rparr>)"
  using unify_no_occurs_check [of cyclic_state 0 "Some ''X''" False 1 0]
  by (simp add: cyclic_state_def cell_at_def)

subsection \<open>Ground terms and the built-ins\<close>

lemma ground_Suc: "ground k h t \<Longrightarrow> ground (Suc k) h t"
proof (induction k arbitrary: t)
  case 0
  then show ?case by simp
next
  case (Suc k)
  from Suc.prems obtain c where c: "cell_at h t = Some c"
    by (cases "cell_at h t") auto
  show ?case
  proof (cases c)
    case (Var r nm an)
    with Suc.prems c obtain t' where "r = Some t'" "ground k h t'"
      by (cases r) auto
    with Suc.IH [of t'] Var c show ?thesis by simp
  next
    case (Num v)
    with c show ?thesis by simp
  next
    case (Struc f as)
    with Suc.prems c
    have "list_all (\<lambda>x. case x of None \<Rightarrow> False | Some a \<Rightarrow> ground k h a) as" by simp
    then have "list_all (\<lambda>x. case x of None \<Rightarrow> False | Some a \<Rightarrow> ground (Suc k) h a) as"
      using Suc.IH by (auto simp: list_all_iff simp del: ground.simps split: option.splits)
    with Struc c show ?thesis by simp
  qed
qed

lemma deref_ground:
  "ground k h t \<Longrightarrow> k \<le> n \<Longrightarrow>
     \<exists>a c. deref n h t = Inr a \<and> ground k h a \<and> cell_at h a = Some c \<and> kind c \<noteq> TM_VAR"
proof (induction k arbitrary: t n)
  case 0
  then show ?case by simp
next
  case (Suc k)
  from Suc.prems obtain n' where n: "n = Suc n'" "k \<le> n'"
    by (cases n) auto
  from Suc.prems obtain c where c: "cell_at h t = Some c"
    by (cases "cell_at h t") auto
  show ?case
  proof (cases c)
    case (Var r nm an)
    with Suc.prems c obtain t' where r: "r = Some t'" "ground k h t'"
      by (cases r) auto
    from Suc.IH [OF r(2) n(2)] obtain a c' where
      "deref n' h t' = Inr a" "ground k h a" "cell_at h a = Some c'" "kind c' \<noteq> TM_VAR"
      by blast
    moreover from \<open>ground k h a\<close> have "ground (Suc k) h a" by (rule ground_Suc)
    ultimately show ?thesis using Var c r n
      by (auto simp del: ground.simps)
  next
    case (Num v)
    with c n Suc.prems show ?thesis by auto
  next
    case (Struc f as)
    with c n Suc.prems show ?thesis by auto
  qed
qed

lemma unify_args_ground:
  assumes u: "\<And>x y. ground k (heap s) x \<Longrightarrow> ground k (heap s) y \<Longrightarrow> \<exists>r. u x y s = Inr (r, s)"
  shows "list_all (\<lambda>x. case x of None \<Rightarrow> False | Some a \<Rightarrow> ground k (heap s) a) as \<Longrightarrow>
         list_all (\<lambda>x. case x of None \<Rightarrow> False | Some a \<Rightarrow> ground k (heap s) a) bs \<Longrightarrow>
         length as = length bs \<Longrightarrow> \<exists>r. unify_args u as bs s = Inr (r, s)"
proof (induction as arbitrary: bs)
  case Nil
  then show ?case by auto
next
  case (Cons a as)
  from Cons.prems obtain b bs' where bs: "bs = b # bs'" by (cases bs) auto
  from Cons.prems bs obtain x y where xy: "a = Some x" "b = Some y"
    "ground k (heap s) x" "ground k (heap s) y"
    by (auto split: option.splits)
  from u [OF xy(3,4)] obtain r where r: "u x y s = Inr (r, s)" ..
  from Cons.prems bs have "\<exists>r. unify_args u as bs' s = Inr (r, s)"
    by (intro Cons.IH) auto
  with r xy bs show ?case by auto
qed

lemma unify_ground:
  "ground k (heap s) a \<Longrightarrow> ground k (heap s) b \<Longrightarrow> k < n \<Longrightarrow> \<exists>r. unify n a b s = Inr (r, s)"
proof (induction k arbitrary: a b n)
  case 0
  then show ?case by simp
next
  case (Suc k)
  from Suc.prems obtain n' where n: "n = Suc n'" "Suc k \<le> n'" "k < n'"
    by (cases n) auto
  from deref_ground [OF Suc.prems(1) n(2)] obtain a' ca where
    a: "deref n' (heap s) a = Inr a'" "ground (Suc k) (heap s) a'"
       "cell_at (heap s) a' = Some ca" "kind ca \<noteq> TM_VAR" by blast
  from deref_ground [OF Suc.prems(2) n(2)] obtain b' cb where
    b: "deref n' (heap s) b = Inr b'" "ground (Suc k) (heap s) b'"
       "cell_at (heap s) b' = Some cb" "kind cb \<noteq> TM_VAR" by blast
  show ?case
  proof (cases "a' = b'")
    case True
    with a b n show ?thesis by auto
  next
    case False
    note ne = False
    show ?thesis
    proof (cases ca)
      case (Var r nm an)
      with a show ?thesis by simp
    next
      case (Num x)
      with a b n ne show ?thesis by (cases cb) auto
    next
      case (Struc f as)
      show ?thesis
      proof (cases cb)
        case (Var r nm an)
        with b show ?thesis by simp
      next
        case (Num y)
        with a b n ne Struc show ?thesis by auto
      next
        case Struc2: (Struc g bs)
        show ?thesis
        proof (cases "f = g \<and> length as = length bs")
          case False
          with a b n ne Struc Struc2 show ?thesis by auto
        next
          case True
          from a Struc
          have ga: "list_all (\<lambda>x. case x of None \<Rightarrow> False | Some a \<Rightarrow> ground k (heap s) a) as"
            by simp
          from b Struc2
          have gb: "list_all (\<lambda>x. case x of None \<Rightarrow> False | Some a \<Rightarrow> ground k (heap s) a) bs"
            by simp
          have "\<exists>r. unify_args (unify n') as bs s = Inr (r, s)"
            using ga gb True
            by (intro unify_args_ground [where k = k]) (auto intro: Suc.IH n(3))
          with a b n ne Struc Struc2 True show ?thesis by auto
        qed
      qed
    qed
  qed
qed

lemma deref_idem: "deref n h t = Inr a \<Longrightarrow> deref n h a = Inr a"
proof (induction n arbitrary: t)
  case 0
  then show ?case by simp
next
  case (Suc n)
  from Suc.prems obtain c where c: "cell_at h t = Some c"
    by (cases "cell_at h t") auto
  show ?case
  proof (cases "\<exists>r nm an. c = Var (Some r) nm an")
    case True
    then obtain r nm an where v: "c = Var (Some r) nm an" by blast
    with Suc.prems c have "deref n h r = Inr a" by simp
    from Suc.IH [OF this] have "deref n h a = Inr a" .
    moreover from deref_result [OF this] obtain c' where
      "cell_at h a = Some c'" "\<And>r nm an. c' = Var r nm an \<Longrightarrow> r = None" by blast
    ultimately show ?thesis
      by (cases c') (auto split: option.splits)
  next
    case False
    with Suc.prems c have "a = t"
      by (auto split: cell.splits option.splits)
    with Suc.prems show ?thesis by simp
  qed
qed

lemma is_atom_deref:
  "deref n h g0 = Inr g \<Longrightarrow> cell_at h g = Some (Struc nm as) \<Longrightarrow>
     is_atom n h g name ar = Inr (int (length as) = ar \<and> nm = name)"
  by (simp add: is_atom_def deref_idem)

lemma is_atom_nonstruc:
  "deref n h g0 = Inr g \<Longrightarrow> cell_at h g = Some c \<Longrightarrow> kind c \<noteq> TM_STRUC \<Longrightarrow>
     is_atom n h g name ar = Inr False"
  by (cases c) (simp_all add: is_atom_def deref_idem)

lemma builtin_call_struc:
  "deref n (heap s) G = Inr g \<Longrightarrow> cell_at (heap s) g = Some (Struc nm as) \<Longrightarrow>
   builtin_call n G s =
     (if length as = 0 \<and> nm = ''true'' then Inr (1, s)
      else if length as = 0 \<and> nm = ''fail'' then Inr (0, s)
      else if length as = 0 \<and> nm = ''nl'' then Inr (1, put_str ''\<newline>'' s)
      else if length as = 1 \<and> nm = ''write'' then builtin_write n g s
      else if length as = 2 \<and> nm = ''='' then builtin_eq n g s
      else if length as = 2 \<and> nm = ''dif'' then builtin_dif n g s
      else Inr (- 1, s))"
  by (simp add: builtin_call_def is_atom_deref split: bool.splits)

lemma builtin_call_nonstruc:
  "deref n (heap s) G = Inr g \<Longrightarrow> cell_at (heap s) g = Some c \<Longrightarrow> kind c \<noteq> TM_STRUC \<Longrightarrow>
   builtin_call n G s = Inr (- 1, s)"
  by (simp add: builtin_call_def is_atom_nonstruc split: bool.splits)

lemma builtin_dif_restores: "builtin_dif n g s = Inr (r, s') \<Longrightarrow> s' = s"
proof -
  assume r: "builtin_dif n g s = Inr (r, s')"
  then obtain a b where ab: "goal_arg (heap s) g 0 = Inr a" "goal_arg (heap s) g 1 = Inr b"
    by (auto simp: builtin_dif_def Let_def split: sum.splits)
  with r obtain ok s1 where u: "unify n a b s = Inr (ok, s1)"
    by (auto simp: builtin_dif_def Let_def split: sum.splits)
  from unify_undoable [OF u] have "trail_unwind (trail_mark s) s1 = Inr s"
    by (simp add: undoable_def)
  with r ab u show ?thesis
    by (auto simp: builtin_dif_def Let_def)
qed

subsection \<open>C6: = and dif\<close>

text \<open>
  C6, as the code has it. For two fully ground terms \<^verbatim>\<open>a\<close> and \<^verbatim>\<open>b\<close> that are finite trees
  (no unbound variable inside and, following bound variables, no cycle: of depth at most
  \<open>k\<close>, with more fuel than \<open>k\<close>), the built-ins \<^verbatim>\<open>=(a,b)\<close> and \<^verbatim>\<open>dif(a,b)\<close> both return,
  exactly one of them with success (1) and the other with failure (0), and neither changes
  the state. For any arguments, ground or not, a call of \<^verbatim>\<open>dif\<close> that returns leaves the
  whole state, trail and bindings included, as it was before the call.
\<close>

theorem eq_dif_complementary:
  "(ground k (heap s) a \<and> ground k (heap s) b \<and> k < n \<and>
    cell_at (heap s) ge = Some (Struc ''='' [Some a, Some b]) \<and>
    cell_at (heap s) gd = Some (Struc ''dif'' [Some a, Some b]) \<longrightarrow>
      (builtin_call n ge s = Inr (1, s) \<and> builtin_call n gd s = Inr (0, s)) \<or>
      (builtin_call n ge s = Inr (0, s) \<and> builtin_call n gd s = Inr (1, s)))
   \<and> (cell_at (heap s) gd = Some (Struc ''dif'' [Some x, Some y]) \<and>
      builtin_call n gd s = Inr (r, s') \<longrightarrow> s' = s)"
proof (intro conjI impI)
  assume h: "ground k (heap s) a \<and> ground k (heap s) b \<and> k < n \<and>
    cell_at (heap s) ge = Some (Struc ''='' [Some a, Some b]) \<and>
    cell_at (heap s) gd = Some (Struc ''dif'' [Some a, Some b])"
  then obtain n' where n: "n = Suc n'" by (cases n) auto
  from h obtain ok where u: "unify n a b s = Inr (ok, s)"
    using unify_ground [of k s a b n] by blast
  have w: "trail_unwind (trail_mark s) s = Inr s"
    by (simp add: trail_unwind_noop trail_mark_def)
  from h n have de: "deref n (heap s) ge = Inr ge" and dd: "deref n (heap s) gd = Inr gd"
    by simp_all
  from h have ae: "goal_arg (heap s) ge 0 = Inr a" "goal_arg (heap s) ge (Suc 0) = Inr b"
    and ad: "goal_arg (heap s) gd 0 = Inr a" "goal_arg (heap s) gd (Suc 0) = Inr b"
    by (simp_all add: goal_arg_def)
  from h have ce: "cell_at (heap s) ge = Some (Struc ''='' [Some a, Some b])"
    and cd: "cell_at (heap s) gd = Some (Struc ''dif'' [Some a, Some b])" by simp_all
  have "builtin_call n ge s = builtin_eq n ge s"
    using builtin_call_struc [OF de ce] by simp
  with ae u w have e: "builtin_call n ge s = Inr (if ok then 1 else 0, s)"
    by (simp add: builtin_eq_def)
  have "builtin_call n gd s = builtin_dif n gd s"
    using builtin_call_struc [OF dd cd] by simp
  with ad u w have d: "builtin_call n gd s = Inr (if ok then 0 else 1, s)"
    by (simp add: builtin_dif_def)
  from e d show "(builtin_call n ge s = Inr (1, s) \<and> builtin_call n gd s = Inr (0, s)) \<or>
      (builtin_call n ge s = Inr (0, s) \<and> builtin_call n gd s = Inr (1, s))"
    by (cases ok) simp_all
next
  assume h: "cell_at (heap s) gd = Some (Struc ''dif'' [Some x, Some y]) \<and>
      builtin_call n gd s = Inr (r, s')"
  then obtain n' where n: "n = Suc n'" by (cases n) (auto simp: builtin_call_def)
  from h n have dd: "deref n (heap s) gd = Inr gd" by simp
  from h have cd: "cell_at (heap s) gd = Some (Struc ''dif'' [Some x, Some y])" by simp
  have "builtin_call n gd s = builtin_dif n gd s"
    using builtin_call_struc [OF dd cd] by simp
  with h have "builtin_dif n gd s = Inr (r, s')" by simp
  then show "s' = s" by (rule builtin_dif_restores)
qed

theorem eq_dif_complementary_witness:
  "builtin_call 3 6 eqdif_state = Inr (0, eqdif_state)
   \<and> builtin_call 3 7 eqdif_state = Inr (1, eqdif_state)
   \<and> builtin_call 3 9 eqdif_state = Inr (0, eqdif_state)"
proof -
  have g: "ground 2 (heap eqdif_state) 2 \<and> ground 2 (heap eqdif_state) 5 \<and> (2::nat) < 3 \<and>
    cell_at (heap eqdif_state) 6 = Some (Struc ''='' [Some 2, Some 5]) \<and>
    cell_at (heap eqdif_state) 7 = Some (Struc ''dif'' [Some 2, Some 5])"
    by (simp add: eqdif_state_def cell_at_def numeral_2_eq_2)
  have ne: "fst (projr (builtin_call 3 6 eqdif_state)) \<noteq> 1"
    by code_simp
  from eq_dif_complementary [of 2 eqdif_state 2 5 3 6 7, THEN conjunct1] g
  have "(builtin_call 3 6 eqdif_state = Inr (1, eqdif_state) \<and>
         builtin_call 3 7 eqdif_state = Inr (0, eqdif_state)) \<or>
        (builtin_call 3 6 eqdif_state = Inr (0, eqdif_state) \<and>
         builtin_call 3 7 eqdif_state = Inr (1, eqdif_state))"
    by (rule mp)
  with ne have 1: "builtin_call 3 6 eqdif_state = Inr (0, eqdif_state)"
    and 2: "builtin_call 3 7 eqdif_state = Inr (1, eqdif_state)" by auto
  have c: "cell_at (heap eqdif_state) 9 = Some (Struc ''dif'' [Some 8, Some 2])"
    by (simp add: eqdif_state_def cell_at_def)
  have "isl (builtin_call 3 9 eqdif_state) = False \<and> fst (projr (builtin_call 3 9 eqdif_state)) = 0"
    by code_simp
  then obtain s' where r: "builtin_call 3 9 eqdif_state = Inr (0, s')"
    by (cases "builtin_call 3 9 eqdif_state") auto
  from eq_dif_complementary [of _ eqdif_state _ _ 3 _ 9 8 2 0 s', THEN conjunct2] c r
  have "s' = eqdif_state" by blast
  with r have 3: "builtin_call 3 9 eqdif_state = Inr (0, eqdif_state)" by simp
  from 1 2 3 show ?thesis by blast
qed

lemma cyclic_pair_cells:
  "cell_at (heap cyclic_pair_state) 0 = Some (Var (Some 1) (Some ''A'') False)"
  "cell_at (heap cyclic_pair_state) (Suc 0) = Some (Struc ''f'' [Some 0])"
  "cell_at (heap cyclic_pair_state) 2 = Some (Var (Some 3) (Some ''B'') False)"
  "cell_at (heap cyclic_pair_state) 3 = Some (Struc ''f'' [Some 2])"
  "cell_at (heap cyclic_pair_state) 4 = Some (Struc ''='' [Some 0, Some 2])"
  "cell_at (heap cyclic_pair_state) 5 = Some (Struc ''dif'' [Some 0, Some 2])"
  by (simp_all add: cyclic_pair_state_def cell_at_def)

lemma cyclic_pair_unify: "unify n 0 2 cyclic_pair_state = Inl OutOfFuel"
proof (induction n)
  case 0
  show ?case by simp
next
  case (Suc n)
  show ?case
  proof (cases n)
    case 0
    then show ?thesis by simp
  next
    case (Suc m)
    note n = Suc
    show ?thesis
    proof (cases m)
      case 0
      with n show ?thesis by (simp add: cyclic_pair_cells)
    next
      case (Suc k)
      with n have d: "deref n (heap cyclic_pair_state) 0 = Inr 1"
        "deref n (heap cyclic_pair_state) 2 = Inr 3"
        by (simp_all add: cyclic_pair_cells)
      have "unify_args (unify n) [Some 0] [Some 2] cyclic_pair_state = Inl OutOfFuel"
        using Suc.IH by simp
      with d show ?thesis by (simp add: cyclic_pair_cells)
    qed
  qed
qed

lemma cyclic_pair_eq: "builtin_call n 4 cyclic_pair_state = Inl OutOfFuel"
proof (cases n)
  case 0
  then show ?thesis by (simp add: builtin_call_def)
next
  case (Suc m)
  then have d: "deref n (heap cyclic_pair_state) 4 = Inr 4"
    by (simp add: cyclic_pair_cells)
  have "builtin_call n 4 cyclic_pair_state = builtin_eq n 4 cyclic_pair_state"
    using builtin_call_struc [OF d cyclic_pair_cells(5)] by simp
  then show ?thesis
    by (simp add: builtin_eq_def goal_arg_def cyclic_pair_cells cyclic_pair_unify)
qed

lemma cyclic_pair_dif: "builtin_call n 5 cyclic_pair_state = Inl OutOfFuel"
proof (cases n)
  case 0
  then show ?thesis by (simp add: builtin_call_def)
next
  case (Suc m)
  then have d: "deref n (heap cyclic_pair_state) 5 = Inr 5"
    by (simp add: cyclic_pair_cells)
  have "builtin_call n 5 cyclic_pair_state = builtin_dif n 5 cyclic_pair_state"
    using builtin_call_struc [OF d cyclic_pair_cells(6)] by simp
  then show ?thesis
    by (simp add: builtin_dif_def goal_arg_def cyclic_pair_cells cyclic_pair_unify)
qed

lemma cyclic_pair_built:
  "unify (Suc (Suc 0)) 0 1 cyclic_init
     = Inr (True, bind_var 0 1 (Some ''A'') False cyclic_init)
   \<and> unify (Suc (Suc 0)) 2 3 (bind_var 0 1 (Some ''A'') False cyclic_init)
     = Inr (True, cyclic_pair_state)"
  by (simp add: cyclic_init_def cyclic_pair_state_def cell_at_def bind_var_def trail_push_def)

text \<open>The claim as the specification states it fails on cyclic terms. \<^verbatim>\<open>unify(A, f(A))\<close> and
  \<^verbatim>\<open>unify(B, f(B))\<close> succeed and leave a store without any unbound variable; in it, neither
  \<^verbatim>\<open>=(A,B)\<close> nor \<^verbatim>\<open>dif(A,B)\<close> returns, whatever the bound on the recursion: \<^verbatim>\<open>unify\<close> goes from
  the pair \<^verbatim>\<open>f(A)\<close>, \<^verbatim>\<open>f(B)\<close> to the pair \<^verbatim>\<open>A\<close>, \<^verbatim>\<open>B\<close> and back.\<close>

theorem eq_dif_cyclic_counterexample:
  "unify (Suc (Suc 0)) 0 1 cyclic_init
     = Inr (True, bind_var 0 1 (Some ''A'') False cyclic_init)
   \<and> unify (Suc (Suc 0)) 2 3 (bind_var 0 1 (Some ''A'') False cyclic_init)
     = Inr (True, cyclic_pair_state)
   \<and> list_all (\<lambda>c. \<not> is_unbound c) (heap cyclic_pair_state)
   \<and> (\<forall>n. builtin_call n 4 cyclic_pair_state = Inl OutOfFuel)
   \<and> (\<forall>n. builtin_call n 5 cyclic_pair_state = Inl OutOfFuel)"
proof -
  have "list_all (\<lambda>c. \<not> is_unbound c) (heap cyclic_pair_state)"
    by (simp add: cyclic_pair_state_def is_unbound_def)
  with cyclic_pair_built cyclic_pair_eq cyclic_pair_dif show ?thesis by simp
qed

subsection \<open>C10: built-in goals never reach the clause loop\<close>

lemma builtin_write_result: "builtin_write n g s = Inr (bi, s') \<Longrightarrow> bi = 1"
  by (auto simp: builtin_write_def split: sum.splits)

lemma builtin_eq_result: "builtin_eq n g s = Inr (bi, s') \<Longrightarrow> bi = 0 \<or> bi = 1"
  by (auto simp: builtin_eq_def Let_def split: sum.splits if_splits)

lemma builtin_dif_result: "builtin_dif n g s = Inr (bi, s') \<Longrightarrow> bi = 0 \<or> bi = 1"
  by (auto simp: builtin_dif_def Let_def split: sum.splits if_splits)

lemma builtin_call_table:
  assumes d: "deref n (heap s) G = Inr g"
    and c: "cell_at (heap s) g = Some (Struc nm as)"
    and t: "(nm, length as) \<in> set builtin_table"
    and r: "builtin_call n G s = Inr (bi, s')"
  shows "bi = 0 \<or> bi = 1"
proof -
  note eq = builtin_call_struc [OF d c]
  from t have "(nm = ''true'' \<and> length as = 0) \<or> (nm = ''fail'' \<and> length as = 0)
      \<or> (nm = ''nl'' \<and> length as = 0) \<or> (nm = ''write'' \<and> length as = 1)
      \<or> (nm = ''='' \<and> length as = 2) \<or> (nm = ''dif'' \<and> length as = 2)"
    unfolding builtin_table_def by simp
  then show ?thesis
  proof (elim disjE conjE)
    assume "nm = ''true''" "length as = 0"
    with eq have "builtin_call n G s = Inr (1, s)" by simp
    with r show ?thesis by simp
  next
    assume "nm = ''fail''" "length as = 0"
    with eq have "builtin_call n G s = Inr (0, s)" by simp
    with r show ?thesis by simp
  next
    assume "nm = ''nl''" "length as = 0"
    with eq have "builtin_call n G s = Inr (1, put_str ''\<newline>'' s)" by simp
    with r show ?thesis by simp
  next
    assume "nm = ''write''" "length as = 1"
    with eq have "builtin_call n G s = builtin_write n g s" by simp
    with r have "builtin_write n g s = Inr (bi, s')" by simp
    then show ?thesis by (simp add: builtin_write_result)
  next
    assume "nm = ''=''" "length as = 2"
    with eq have "builtin_call n G s = builtin_eq n g s" by simp
    with r have "builtin_eq n g s = Inr (bi, s')" by simp
    then show ?thesis by (rule builtin_eq_result)
  next
    assume "nm = ''dif''" "length as = 2"
    with eq have "builtin_call n G s = builtin_dif n g s" by simp
    with r have "builtin_dif n g s = Inr (bi, s')" by simp
    then show ?thesis by (rule builtin_dif_result)
  qed
qed

text \<open>
  C10. When the dereferenced goal is a compound whose name and arity are in the built-in
  table, \<^verbatim>\<open>solve\<close> does what \<^verbatim>\<open>builtin_call\<close> says and nothing else: a fault is passed on,
  the result 1 goes on with the remaining goals, any other result returns at once. For such
  a goal \<^verbatim>\<open>builtin_call\<close> returns 0 or 1 only, so the clause loop is never entered and no
  clause of the knowledge base is tried for it, whatever heads the knowledge base holds and
  also when the built-in fails.
\<close>

theorem builtin_goal_skips_clauses:
  assumes d: "deref n (heap s) G = Inr g"
    and c: "cell_at (heap s) g = Some (Struc nm as)"
    and t: "(nm, length as) \<in> set builtin_table"
  shows "solve (Suc n) kb qv (G # rest) s =
           (case builtin_call n G s of
              Inl e \<Rightarrow> Inl e
            | Inr (bi, s1) \<Rightarrow> if bi = 1 then solve n kb qv rest s1 else Inr s1)
         \<and> (\<forall>bi s1. builtin_call n G s = Inr (bi, s1) \<longrightarrow> bi = 0 \<or> bi = 1)"
proof -
  have k: "\<And>bi s1. builtin_call n G s = Inr (bi, s1) \<Longrightarrow> bi = 0 \<or> bi = 1"
    by (rule builtin_call_table [OF d c t])
  show ?thesis
  proof (cases "builtin_call n G s")
    case (Inl e)
    then show ?thesis by simp
  next
    case (Inr p)
    obtain bi s1 where p: "p = (bi, s1)" by (cases p)
    from k [of bi s1] Inr p have "bi = 0 \<or> bi = 1" by simp
    with Inr p show ?thesis by auto
  qed
qed

theorem builtin_goal_skips_clauses_witness:
  "solve (Suc (Suc 0)) goals_kb [] [2, 1] goals_state = Inr goals_state"
proof -
  have d: "deref (Suc 0) (heap goals_state) 2 = Inr 2"
    by (simp add: goals_state_def cell_at_def)
  have c: "cell_at (heap goals_state) 2 = Some (Struc ''fail'' [])"
    by (simp add: goals_state_def cell_at_def)
  have t: "(''fail'', length ([] :: ptr list)) \<in> set builtin_table"
    by (simp add: builtin_table_def)
  have b: "builtin_call (Suc 0) 2 goals_state = Inr (0, goals_state)"
    using builtin_call_struc [OF d c] by simp
  from builtin_goal_skips_clauses [OF d c t, of goals_kb "[]" "[1]", THEN conjunct1] b
  show ?thesis by simp
qed

subsection \<open>C5: a number as a goal\<close>

lemma try_clauses_skip_all:
  "deref n (heap s) G = Inr g \<Longrightarrow>
   \<forall>cl \<in> set cls. clause_filter (heap s) g (head cl) = Inr False \<Longrightarrow>
   try_clauses slv n G rest cls s = Inr s"
  by (induction cls) simp_all

lemma clause_filter_kinds:
  "cell_at h g = Some cg \<Longrightarrow> cell_at h H = Some ch \<Longrightarrow> kind cg \<noteq> kind ch \<Longrightarrow>
   clause_filter h g H = Inr False"
  by (cases cg; cases ch) (simp_all add: clause_filter_def)

text \<open>
  C5, as the code has it. A goal whose dereferenced form is a Number is no built-in and the
  functor filter skips every clause whose head is not a Number. With a knowledge base that
  holds no Number as a clause head, \<^verbatim>\<open>solve\<close> returns normally and leaves the state as it
  was: no solution is counted, nothing is printed, no binding is left. The goal fails like
  any goal without a matching clause; nothing terminates the process.
\<close>

theorem number_goal_fails:
  assumes d: "deref n (heap s) G = Inr g"
    and c: "cell_at (heap s) g = Some (Num v)"
    and kb: "\<forall>cl \<in> set kb. \<exists>ch. cell_at (heap s) (head cl) = Some ch \<and> kind ch \<noteq> TM_NUM"
  shows "solve (Suc n) kb qv (G # rest) s = Inr s"
proof -
  have b: "builtin_call n G s = Inr (- 1, s)"
    using builtin_call_nonstruc [OF d c] by simp
  have "\<forall>cl \<in> set kb. clause_filter (heap s) g (head cl) = Inr False"
  proof
    fix cl assume "cl \<in> set kb"
    with kb obtain ch where "cell_at (heap s) (head cl) = Some ch" "kind ch \<noteq> TM_NUM"
      by blast
    then show "clause_filter (heap s) g (head cl) = Inr False"
      by (intro clause_filter_kinds [OF c]) auto
  qed
  from try_clauses_skip_all [OF d this]
  have "try_clauses (solve n kb qv) n G rest kb s = Inr s" .
  with b show ?thesis by simp
qed

theorem number_goal_fails_witness:
  "solve (Suc (Suc 0)) goals_kb [] [3] goals_state = Inr goals_state"
proof (rule number_goal_fails)
  show "deref (Suc 0) (heap goals_state) 3 = Inr 3"
    by (simp add: goals_state_def cell_at_def)
  show "cell_at (heap goals_state) 3 = Some (Num 7)"
    by (simp add: goals_state_def cell_at_def)
  show "\<forall>cl \<in> set goals_kb.
          \<exists>ch. cell_at (heap goals_state) (head cl) = Some ch \<and> kind ch \<noteq> TM_NUM"
    by (simp add: goals_kb_def goals_state_def cell_at_def)
qed

text \<open>The claim as the specification states it fails: the query \<^verbatim>\<open>?- 7, p.\<close> over
  \<open>goals_kb\<close> returns normally.\<close>

theorem number_goal_counterexample:
  "solve (Suc (Suc 0)) goals_kb [] [3, 4] goals_state = Inr goals_state"
  by (simp add: goals_kb_def goals_state_def cell_at_def builtin_call_def is_atom_def
      clause_filter_def)

subsection \<open>C9: output survives backtracking\<close>

text \<open>
  C9. The query \<^verbatim>\<open>write(hello), fail\<close>, over any knowledge base and from any state, returns
  with \<^verbatim>\<open>hello\<close> appended once to the output and nothing else changed: the solution count
  is the one of before the call, so no solution is reported.
\<close>

theorem write_survives_failure:
  assumes gw: "cell_at (heap s) gw = Some (Struc ''write'' [Some h])"
    and h: "cell_at (heap s) h = Some (Struc ''hello'' [])"
    and gf: "cell_at (heap s) gf = Some (Struc ''fail'' [])"
  shows "solve (Suc (Suc (Suc n))) kb qv [gw, gf] s = Inr (s\<lparr>out := out s @ map Ch ''hello''\<rparr>)"
proof -
  let ?s1 = "put_str ''hello'' s"
  have hs: "heap ?s1 = heap s" by (simp add: put_str_def)
  have p: "print_term (Suc (Suc n)) h s = Inr ?s1"
    using h by (simp add: is_list_like_def)
  have dw: "deref (Suc (Suc n)) (heap s) gw = Inr gw" using gw by simp
  have "builtin_call (Suc (Suc n)) gw s = builtin_write (Suc (Suc n)) gw s"
    using builtin_call_struc [OF dw gw] by simp
  with gw p have w: "builtin_call (Suc (Suc n)) gw s = Inr (1, ?s1)"
    by (simp add: builtin_write_def goal_arg_def)
  have gf1: "cell_at (heap ?s1) gf = Some (Struc ''fail'' [])" using gf hs by simp
  then have df: "deref (Suc n) (heap ?s1) gf = Inr gf" by simp
  have f: "builtin_call (Suc n) gf ?s1 = Inr (0, ?s1)"
    using builtin_call_struc [OF df gf1] by simp
  from f have "solve (Suc (Suc n)) kb qv [gf] ?s1 = Inr ?s1" by simp
  with w have "solve (Suc (Suc (Suc n))) kb qv [gw, gf] s = Inr ?s1" by simp
  then show ?thesis by (simp add: put_str_def)
qed

theorem write_survives_failure_witness:
  "solve (Suc (Suc (Suc 0))) goals_kb [] [1, 2] goals_state
     = Inr (goals_state\<lparr>out := map Ch ''hello''\<rparr>)"
  using write_survives_failure [of goals_state 1 0 2 0 goals_kb "[]"]
  by (simp add: goals_state_def cell_at_def)

subsection \<open>C3: the functor filter of the clause loop\<close>

lemma heap_grows_refl: "heap_grows s s"
  by (simp add: heap_grows_def)

lemma heap_grows_trans: "heap_grows s s1 \<Longrightarrow> heap_grows s1 s2 \<Longrightarrow> heap_grows s s2"
  by (auto simp: heap_grows_def)

lemma heap_grows_alloc: "alloc c s = (a, s') \<Longrightarrow> heap_grows s s'"
  by (auto simp: alloc_def heap_grows_def nth_append)

lemma map_get_grows: "map_get t M s = Inr (c, M', s') \<Longrightarrow> heap_grows s s'"
  by (auto simp: map_get_def mk_var_def heap_grows_refl
      split: option.splits prod.splits dest: heap_grows_alloc)

lemma set_arg_result:
  assumes "set_arg c i r s = Inr s'" and "cell_at (heap s) c = Some (Struc nm as)"
  shows "length (heap s') = length (heap s)"
    and "\<forall>a. a \<noteq> c \<longrightarrow> heap s' ! a = heap s ! a"
    and "cell_at (heap s') c = Some (Struc nm (as[i := Some r]))"
  using assms by (auto simp: set_arg_def cell_at_def split: if_splits)

lemma copy_args_result:
  assumes cp: "\<And>t M s r M' s'. cp t M s = Inr (r, M', s') \<Longrightarrow> heap_grows s s'"
  shows "copy_args cp c i xs M s = Inr (r, M', s') \<Longrightarrow>
         cell_at (heap s) c = Some (Struc nm as) \<Longrightarrow>
         r = c \<and> length (heap s) \<le> length (heap s')
         \<and> (\<forall>a < length (heap s). a \<noteq> c \<longrightarrow> heap s' ! a = heap s ! a)
         \<and> (\<exists>as'. cell_at (heap s') c = Some (Struc nm as') \<and> length as' = length as)"
proof (induction xs arbitrary: i M s as)
  case Nil
  then show ?case by simp
next
  case (Cons x xs)
  from Cons.prems(1) obtain t where x: "x = Some t" by (cases x) auto
  from Cons.prems(1) x obtain r1 M1 s1 where r1: "cp t M s = Inr (r1, M1, s1)"
    by (auto split: sum.splits)
  from Cons.prems(1) x r1 obtain s2 where s2: "set_arg c i r1 s1 = Inr s2"
    by (auto split: sum.splits)
  from Cons.prems(1) x r1 s2 have rec: "copy_args cp c (Suc i) xs M1 s2 = Inr (r, M', s')"
    by simp
  from cp [OF r1] have g1: "heap_grows s s1" .
  from Cons.prems(2) have clt: "c < length (heap s)"
    by (auto simp: cell_at_def split: if_splits)
  with g1 Cons.prems(2) have c1: "cell_at (heap s1) c = Some (Struc nm as)"
    by (auto simp: heap_grows_def cell_at_def split: if_splits)
  note sa = set_arg_result [OF s2 c1]
  from Cons.IH [OF rec sa(3)] have ih: "r = c" "length (heap s2) \<le> length (heap s')"
    "\<forall>a < length (heap s2). a \<noteq> c \<longrightarrow> heap s' ! a = heap s2 ! a"
    "\<exists>as'. cell_at (heap s') c = Some (Struc nm as') \<and> length as' = length (as[i := Some r1])"
    by blast+
  from g1 sa(1) ih(2) have len: "length (heap s) \<le> length (heap s')"
    by (simp add: heap_grows_def)
  have "\<forall>a < length (heap s). a \<noteq> c \<longrightarrow> heap s' ! a = heap s ! a"
  proof (intro allI impI)
    fix a assume a: "a < length (heap s)" "a \<noteq> c"
    with g1 sa(1) have "a < length (heap s2)" by (simp add: heap_grows_def)
    with ih(3) a have "heap s' ! a = heap s2 ! a" by simp
    also from sa(2) a have "\<dots> = heap s1 ! a" by simp
    also from g1 a have "\<dots> = heap s ! a" by (simp add: heap_grows_def)
    finally show "heap s' ! a = heap s ! a" .
  qed
  with ih len show ?case by simp
qed

lemma copy_term_result:
  "copy_term n t M s = Inr (c, M', s') \<Longrightarrow>
     heap_grows s s'
     \<and> (\<forall>nm as. cell_at (heap s) t = Some (Struc nm as) \<longrightarrow>
           c = length (heap s)
           \<and> (\<exists>as'. cell_at (heap s') c = Some (Struc nm as') \<and> length as' = length as))
     \<and> (\<forall>v. cell_at (heap s) t = Some (Num v) \<longrightarrow>
           c = length (heap s) \<and> cell_at (heap s') c = Some (Num v))"
proof (induction n arbitrary: t M s c M' s')
  case 0
  then show ?case by simp
next
  case (Suc n)
  from Suc.prems obtain ct where ct: "cell_at (heap s) t = Some ct"
    by (cases "cell_at (heap s) t") auto
  show ?case
  proof (cases ct)
    case (Var r nm an)
    with Suc.prems ct have "map_get t M s = Inr (c, M', s')" by simp
    from map_get_grows [OF this] Var ct show ?thesis by simp
  next
    case (Num v)
    with Suc.prems ct have "c = length (heap s)" "s' = s\<lparr>heap := heap s @ [Num v]\<rparr>"
      by (auto simp: mk_num_def alloc_def)
    with Num ct show ?thesis
      by (auto simp: heap_grows_def cell_at_def nth_append)
  next
    case (Struc nm as)
    let ?s1 = "s\<lparr>heap := heap s @ [Struc nm (replicate (length as) None)]\<rparr>"
    let ?c = "length (heap s)"
    from Suc.prems ct Struc
    have ca: "copy_args (copy_term n) ?c 0 as M ?s1 = Inr (c, M', s')"
      by (simp add: mk_struct_def alloc_def)
    have c1: "cell_at (heap ?s1) ?c = Some (Struc nm (replicate (length as) None))"
      by (simp add: cell_at_def)
    have cp: "\<And>t M s r M' s'. copy_term n t M s = Inr (r, M', s') \<Longrightarrow> heap_grows s s'"
      using Suc.IH by blast
    from copy_args_result [of "copy_term n", OF cp ca c1]
    have res: "c = ?c" "length (heap ?s1) \<le> length (heap s')"
      "\<forall>a < length (heap ?s1). a \<noteq> ?c \<longrightarrow> heap s' ! a = heap ?s1 ! a"
      "\<exists>as'. cell_at (heap s') ?c = Some (Struc nm as') \<and> length as' = length as"
      by auto
    from res(2,3) have "heap_grows s s'"
      by (auto simp: heap_grows_def nth_append)
    with res(1,4) ct Struc show ?thesis by simp
  qed
qed

lemma clause_filter_struc:
  "cell_at h Gh = Some (Struc N as) \<Longrightarrow> cell_at h H = Some ch \<Longrightarrow>
   clause_filter h Gh H =
     Inr (case ch of Struc hn has \<Rightarrow> hn = N \<and> length has = length as | _ \<Rightarrow> False)"
  by (cases ch) (auto simp: clause_filter_def)

lemma unify_struc_mismatch:
  assumes a: "cell_at (heap s) a = Some (Struc f as)"
    and b: "cell_at (heap s) b = Some cb"
    and ne: "a \<noteq> b"
    and cb: "case cb of Struc g bs \<Rightarrow> g \<noteq> f \<or> length bs \<noteq> length as | Num v \<Rightarrow> True
               | Var r nm an \<Rightarrow> False"
    and u: "unify m a b s = Inr (ok, s')"
  shows "\<not> ok"
proof -
  from u obtain m' where m: "m = Suc m'" by (cases m) auto
  from u m a obtain m'' where m': "m' = Suc m''" by (cases m') auto
  from a have da: "deref m' (heap s) a = Inr a" by (simp add: m')
  from b cb have db: "deref m' (heap s) b = Inr b" by (cases cb) (simp_all add: m')
  from u da db ne a b cb show ?thesis
    by (cases cb) (auto simp: m split: if_splits)
qed

text \<open>
  C3, as the code has it. For a goal whose dereferenced form is a compound with name \<^verbatim>\<open>N\<close>
  and arity \<^verbatim>\<open>K\<close>, the filter lets through exactly the clauses whose head is a compound
  with the same name and arity; a clause whose head is a Variable (or a Number) is skipped,
  since the kinds differ. A skipped clause is not renamed and not unified: the loop goes on
  with the next clause. Skipping a clause whose head is not a Variable never loses a
  clause that could have unified: the renamed head of such a clause does not unify with
  the goal. A clause that passes the filter is attempted: \<^verbatim>\<open>copy_term\<close> renames its head from
  an empty map, the goal is unified with the copy, on success the body is renamed with the
  same map, put before the remaining goals and handed to the solver, and in every case the
  trail is unwound to the mark taken before the attempt and the loop goes on with the next
  clause. The copy of such a head is a new node, a compound of the name \<^verbatim>\<open>N\<close> and the arity
  \<^verbatim>\<open>K\<close>, and no node of before is changed.
\<close>

theorem functor_filter_compound_goal:
  assumes g: "cell_at (heap s) Gh = Some (Struc N as)"
  shows "(cell_at (heap s) H = Some ch \<longrightarrow>
            clause_filter (heap s) Gh H =
              Inr (case ch of Struc hn has \<Rightarrow> hn = N \<and> length has = length as | _ \<Rightarrow> False))
       \<and> (deref n (heap s) G = Inr Gh \<and> clause_filter (heap s) Gh (head cl) = Inr False \<longrightarrow>
            try_clauses slv n G rest (cl # cls) s = try_clauses slv n G rest cls s)
       \<and> (clause_filter (heap s) Gh H = Inr False \<and>
          (\<exists>ch. cell_at (heap s) H = Some ch \<and> kind ch \<noteq> TM_VAR) \<and>
          copy_term k H [] s = Inr (Hc, M, s1) \<and> unify m Gh Hc s1 = Inr (ok, s2) \<longrightarrow> \<not> ok)
       \<and> (deref n (heap s) G = Inr Gh \<and> clause_filter (heap s) Gh (head cl) = Inr True \<longrightarrow>
            try_clauses slv n G rest (cl # cls) s =
              (case copy_term n (head cl) [] s of
                 Inl e \<Rightarrow> Inl e
               | Inr (Hcopy, VM, t1) \<Rightarrow>
                   (case unify n Gh Hcopy t1 of
                      Inl e \<Rightarrow> Inl e
                    | Inr (unified, t2) \<Rightarrow>
                        (case (if unified then
                                 (case copy_goals (copy_term n) (body cl) VM t2 of
                                    Inl e \<Rightarrow> Inl e
                                  | Inr (B, VM', t3) \<Rightarrow> slv (B @ rest) t3)
                               else Inr t2) of
                           Inl e \<Rightarrow> Inl e
                         | Inr t4 \<Rightarrow>
                             (case trail_unwind (trail_mark s) t4 of
                                Inl e \<Rightarrow> Inl e
                              | Inr t5 \<Rightarrow> try_clauses slv n G rest cls t5)))))
       \<and> (clause_filter (heap s) Gh H = Inr True \<and> copy_term k H [] s = Inr (Hc, M, s1) \<longrightarrow>
            Hc = length (heap s) \<and> heap_grows s s1 \<and>
            (\<exists>has. cell_at (heap s1) Hc = Some (Struc N has) \<and> length has = length as))"
proof (intro conjI impI)
  assume "cell_at (heap s) H = Some ch"
  with g show "clause_filter (heap s) Gh H =
      Inr (case ch of Struc hn has \<Rightarrow> hn = N \<and> length has = length as | _ \<Rightarrow> False)"
    by (rule clause_filter_struc)
next
  assume "deref n (heap s) G = Inr Gh \<and> clause_filter (heap s) Gh (head cl) = Inr False"
  then show "try_clauses slv n G rest (cl # cls) s = try_clauses slv n G rest cls s"
    by simp
next
  assume h: "clause_filter (heap s) Gh H = Inr False \<and>
          (\<exists>ch. cell_at (heap s) H = Some ch \<and> kind ch \<noteq> TM_VAR) \<and>
          copy_term k H [] s = Inr (Hc, M, s1) \<and> unify m Gh Hc s1 = Inr (ok, s2)"
  then obtain ch where ch: "cell_at (heap s) H = Some ch" and nv: "kind ch \<noteq> TM_VAR"
    by blast
  from h have ct: "copy_term k H [] s = Inr (Hc, M, s1)" and u: "unify m Gh Hc s1 = Inr (ok, s2)"
    by simp_all
  note r = copy_term_result [OF ct]
  from g have glt: "Gh < length (heap s)" by (auto simp: cell_at_def split: if_splits)
  with r g have g1: "cell_at (heap s1) Gh = Some (Struc N as)"
    by (auto simp: heap_grows_def cell_at_def split: if_splits)
  from h ch clause_filter_struc [OF g ch]
  have f: "(case ch of Struc hn has \<Rightarrow> hn = N \<and> length has = length as | _ \<Rightarrow> False) = False"
    by simp
  show "\<not> ok"
  proof (cases ch)
    case (Var r nm an)
    with nv show ?thesis by simp
  next
    case (Num v)
    with r ch have "Hc = length (heap s) \<and> cell_at (heap s1) Hc = Some (Num v)" by blast
    with glt g1 u show ?thesis
      by (intro unify_struc_mismatch [OF g1 _ _ _ u]) auto
  next
    case (Struc hn has)
    with r ch obtain has' where hc: "Hc = length (heap s)"
      "cell_at (heap s1) Hc = Some (Struc hn has')" "length has' = length has" by auto
    from f Struc have "hn \<noteq> N \<or> length has \<noteq> length as" by simp
    with hc glt show ?thesis
      by (intro unify_struc_mismatch [OF g1 hc(2) _ _ u]) auto
  qed
next
  assume "deref n (heap s) G = Inr Gh \<and> clause_filter (heap s) Gh (head cl) = Inr True"
  then show "try_clauses slv n G rest (cl # cls) s =
              (case copy_term n (head cl) [] s of
                 Inl e \<Rightarrow> Inl e
               | Inr (Hcopy, VM, t1) \<Rightarrow>
                   (case unify n Gh Hcopy t1 of
                      Inl e \<Rightarrow> Inl e
                    | Inr (unified, t2) \<Rightarrow>
                        (case (if unified then
                                 (case copy_goals (copy_term n) (body cl) VM t2 of
                                    Inl e \<Rightarrow> Inl e
                                  | Inr (B, VM', t3) \<Rightarrow> slv (B @ rest) t3)
                               else Inr t2) of
                           Inl e \<Rightarrow> Inl e
                         | Inr t4 \<Rightarrow>
                             (case trail_unwind (trail_mark s) t4 of
                                Inl e \<Rightarrow> Inl e
                              | Inr t5 \<Rightarrow> try_clauses slv n G rest cls t5))))"
    by (simp add: Let_def)
next
  assume h: "clause_filter (heap s) Gh H = Inr True \<and> copy_term k H [] s = Inr (Hc, M, s1)"
  then obtain ch where ch: "cell_at (heap s) H = Some ch"
    by (cases "cell_at (heap s) H") (simp_all add: clause_filter_def g)
  from h clause_filter_struc [OF g ch]
  obtain has where hs: "ch = Struc N has" "length has = length as"
    by (cases ch) simp_all
  from h have ct: "copy_term k H [] s = Inr (Hc, M, s1)" by simp
  from copy_term_result [OF ct] ch hs
  have r: "Hc = length (heap s) \<and> heap_grows s s1 \<and>
        (\<exists>has. cell_at (heap s1) Hc = Some (Struc N has) \<and> length has = length as)"
    by auto
  from r show "Hc = length (heap s)" by simp
  from r show "heap_grows s s1" by simp
  from r show "\<exists>has. cell_at (heap s1) Hc = Some (Struc N has) \<and> length has = length as"
    by blast
qed

theorem functor_filter_compound_goal_witness:
  "clause_filter (heap goals_state) 4 2 = Inr False
   \<and> clause_filter (heap goals_state) 4 8 = Inr True
   \<and> try_clauses (\<lambda>gs s. Inr s) (Suc 0) 4 [] [\<lparr>head = 2, body = []\<rparr>] goals_state
       = try_clauses (\<lambda>gs s. Inr s) (Suc 0) 4 [] [] goals_state
   \<and> copy_term (Suc 0) 2 [] goals_state = Inr (9, [], fail_copy_state)
   \<and> unify (Suc (Suc 0)) 4 9 fail_copy_state = Inr (False, fail_copy_state)
   \<and> copy_term (Suc (Suc 0)) 8 [] goals_state = Inr (9, [], p_copy_state)
   \<and> heap_grows goals_state p_copy_state
   \<and> try_clauses (\<lambda>gs s. Inr (s\<lparr>solution_count := solution_count s + 1\<rparr>))
         (Suc (Suc 0)) 4 [] [\<lparr>head = 8, body = []\<rparr>] goals_state
       = Inr (p_copy_state\<lparr>solution_count := 1\<rparr>)"
proof -
  have g: "cell_at (heap goals_state) 4 = Some (Struc ''p'' [])"
    by (simp add: goals_state_def cell_at_def)
  have c2: "cell_at (heap goals_state) 2 = Some (Struc ''fail'' [])"
    and c8: "cell_at (heap goals_state) 8 = Some (Struc ''p'' [])"
    by (simp_all add: goals_state_def cell_at_def)
  have d: "deref (Suc 0) (heap goals_state) 4 = Inr 4"
    and d2: "deref (Suc (Suc 0)) (heap goals_state) 4 = Inr 4"
    by (simp_all add: goals_state_def cell_at_def)
  note th = functor_filter_compound_goal [OF g]
  from th [THEN conjunct1, of 2] c2 have 1: "clause_filter (heap goals_state) 4 2 = Inr False"
    by simp
  from th [THEN conjunct1, of 8] c8 have 2: "clause_filter (heap goals_state) 4 8 = Inr True"
    by simp
  from th [THEN conjunct2, THEN conjunct1, of "Suc 0" 4 "\<lparr>head = 2, body = []\<rparr>"
      "\<lambda>gs s. Inr s" "[]" "[]"] d 1
  have 3: "try_clauses (\<lambda>gs s. Inr s) (Suc 0) 4 [] [\<lparr>head = 2, body = []\<rparr>] goals_state
       = try_clauses (\<lambda>gs s. Inr s) (Suc 0) 4 [] [] goals_state" by simp
  have 4: "copy_term (Suc 0) 2 [] goals_state = Inr (9, [], fail_copy_state)"
    by (simp add: goals_state_def fail_copy_state_def cell_at_def mk_struct_def alloc_def)
  have 5: "unify (Suc (Suc 0)) 4 9 fail_copy_state = Inr (False, fail_copy_state)"
    by (simp add: goals_state_def fail_copy_state_def cell_at_def)
  have nv: "\<exists>ch. cell_at (heap goals_state) 2 = Some ch \<and> kind ch \<noteq> TM_VAR"
    using c2 by simp
  from th [THEN conjunct2, THEN conjunct2, THEN conjunct1, of 2 "Suc 0" 9 "[]" fail_copy_state
      "Suc (Suc 0)" False fail_copy_state] 1 nv 4 5
  have 6: "\<not> False" by blast
  have 7: "copy_term (Suc (Suc 0)) 8 [] goals_state = Inr (9, [], p_copy_state)"
    by (simp add: goals_state_def p_copy_state_def cell_at_def mk_struct_def alloc_def)
  from th [THEN conjunct2, THEN conjunct2, THEN conjunct2, THEN conjunct2,
      of 8 "Suc (Suc 0)" 9 "[]" p_copy_state] 2 7
  have 8: "heap_grows goals_state p_copy_state" by blast
  have u: "unify (Suc (Suc 0)) 4 9 p_copy_state = Inr (True, p_copy_state)"
    by (simp add: goals_state_def p_copy_state_def cell_at_def)
  have w: "trail_unwind (trail_mark goals_state) (p_copy_state\<lparr>solution_count := 1\<rparr>)
      = Inr (p_copy_state\<lparr>solution_count := 1\<rparr>)"
    by (rule trail_unwind_noop) (simp add: goals_state_def p_copy_state_def trail_mark_def)
  have sc: "solution_count p_copy_state = 0"
    by (simp add: goals_state_def p_copy_state_def)
  have f8: "clause_filter (heap goals_state) 4 (head \<lparr>head = 8, body = []\<rparr>) = Inr True"
    using 2 by simp
  note e = th [THEN conjunct2, THEN conjunct2, THEN conjunct2, THEN conjunct1,
      of "Suc (Suc 0)" 4 "\<lparr>head = 8, body = []\<rparr>"
      "\<lambda>gs s. Inr (s\<lparr>solution_count := solution_count s + 1\<rparr>)" "[]" "[]",
      THEN mp, OF conjI [OF d2 f8]]
  have 9: "try_clauses (\<lambda>gs s. Inr (s\<lparr>solution_count := solution_count s + 1\<rparr>))
         (Suc (Suc 0)) 4 [] [\<lparr>head = 8, body = []\<rparr>] goals_state
       = Inr (p_copy_state\<lparr>solution_count := 1\<rparr>)"
    unfolding e by (simp add: 7 u w sc del: copy_term.simps unify.simps)
  from 1 2 3 4 5 6 7 8 9 show ?thesis by blast
qed

text \<open>The claim as the specification states it fails: for the goal \<^verbatim>\<open>p\<close> the filter skips
  the clause \<^verbatim>\<open>X.\<close> whose head is a Variable, although the renamed head unifies with the
  goal; the query \<^verbatim>\<open>?- p.\<close> over that clause alone reports no solution.\<close>

theorem functor_filter_counterexample:
  "clause_filter (heap goals_state) 4 7 = Inr False
   \<and> copy_term (Suc 0) 7 [] goals_state = Inr (9, [(7, 9)], renamed_state)
   \<and> unify (Suc (Suc 0)) 4 9 renamed_state
       = Inr (True, bind_var 9 4 (Some ''X'') False renamed_state)
   \<and> solve (Suc (Suc 0)) [\<lparr>head = 7, body = []\<rparr>] [] [4] goals_state = Inr goals_state"
  by (simp add: goals_state_def renamed_state_def cell_at_def clause_filter_def map_get_def
      mk_var_def alloc_def builtin_call_def is_atom_def)

subsection \<open>C1: the ancestor scenario\<close>

lemma carol_query_vars: "collect_vars 3 (heap carol_state) 21 [] = Inr [19]"
  by code_simp

lemma nobody_query_vars: "collect_vars 3 (heap nobody_state) 21 [] = Inr [19]"
  by code_simp

lemma carol_run:
  "map_sum id (\<lambda>s. (out s, solution_count s, trail s)) (solve 10 family_kb [19] [21] carol_state)
     = Inr (map Ch ''A = bob\<newline>A = alice\<newline>'', 2, [])"
  by code_simp

lemma nobody_run:
  "map_sum id (\<lambda>s. (out s, solution_count s, trail s)) (solve 10 family_kb [19] [21] nobody_state)
     = Inr ([], 0, [])"
  by code_simp

text \<open>
  C1. Over the knowledge base of the three \<^verbatim>\<open>parent\<close> facts and the two \<^verbatim>\<open>ancestor\<close> rules, in
  that order, \<^verbatim>\<open>solve\<close> on the query \<^verbatim>\<open>ancestor(A, carol)\<close> returns, has counted two solutions
  and has printed \<^verbatim>\<open>A = bob\<close> and then \<^verbatim>\<open>A = alice\<close>, each on its line, and nothing else; on
  the query \<^verbatim>\<open>ancestor(A, nobody)\<close> it returns with no solution counted and nothing
  printed. Both runs end with an empty trail. The query variables handed to \<^verbatim>\<open>solve\<close> are
  the ones \<^verbatim>\<open>collect_vars\<close> finds in the query: \<^verbatim>\<open>A\<close> alone.
\<close>

theorem ancestor_scenario:
  "collect_vars 3 (heap carol_state) 21 [] = Inr [19]
   \<and> map_sum id (\<lambda>s. (out s, solution_count s, trail s))
         (solve 10 family_kb [19] [21] carol_state)
       = Inr (map Ch ''A = bob\<newline>A = alice\<newline>'', 2, [])
   \<and> collect_vars 3 (heap nobody_state) 21 [] = Inr [19]
   \<and> map_sum id (\<lambda>s. (out s, solution_count s, trail s))
         (solve 10 family_kb [19] [21] nobody_state)
       = Inr ([], 0, [])"
  using carol_query_vars carol_run nobody_query_vars nobody_run by (intro conjI)

end
